theory Spec2Isabelle
  imports Main "HOL-Library.Word" "HOL-Library.Sublist"
begin

unbundle bit_operations_syntax

section \<open>sctrace: an interrupt-driven logic tracer\<close>

text \<open>
  A shallow embedding of \<^verbatim>\<open>sctrace.c\<close>. Bytes (\<^verbatim>\<open>uint8_t\<close>, \<^verbatim>\<open>char\<close>) are 8-bit words.
  Pointers into \<^verbatim>\<open>oqueue\<close> are byte offsets from \<^verbatim>\<open>&oqueue[0]\<close>. The macro
  \<^verbatim>\<open>RAM_SIZE\<close> comes from the device header (\<^verbatim>\<open>RAMEND\<close>), so it is a parameter of
  every definition that depends on the size of the output queue.
\<close>

type_synonym u8 = "8 word"

text \<open>A queue entry: the four bytes stored per event.\<close>

type_synonym entry = "u8 \<times> u8 \<times> u8 \<times> u8"

subsection \<open>Configuration\<close>

datatype capture_port = PortD | PortB

definition INTERRUPT_FLAG_CLEAR :: "capture_port \<Rightarrow> u8" where
  "INTERRUPT_FLAG_CLEAR cp = (case cp of PortD \<Rightarrow> 0x0F | PortB \<Rightarrow> 0x01)"

definition IQPAGE :: u8 where
  "IQPAGE = 1"

definition IQENTRYSZ :: u8 where
  "IQENTRYSZ = 4"

subsection \<open>Hex digits\<close>

text \<open>\<^verbatim>\<open>return (v + ((v < 10) ? '0' : 'A' - 10));\<close> truncated to a \<^verbatim>\<open>char\<close>.\<close>

definition hex :: "u8 \<Rightarrow> u8" where
  "hex v = v + (if v < 10 then of_char CHR ''0'' else of_char CHR ''A'' - 10)"

subsection \<open>Output queue\<close>

definition OQENTRYSZ :: nat where
  "OQENTRYSZ = 4"

text \<open>
  \<^verbatim>\<open>#define OQSZ (((RAM_SIZE - 512) / OQENTRYSZ) * OQENTRYSZ)\<close>. The array
  \<^verbatim>\<open>oqueue[OQSZ]\<close> only compiles for a positive size, which every state invariant
  below records.
\<close>

definition OQSZ :: "nat \<Rightarrow> nat" where
  "OQSZ RAM_SIZE = ((RAM_SIZE - 512) div OQENTRYSZ) * OQENTRYSZ"

record oq =
  oqueue :: "u8 list"
  oqhead :: nat
  oqtail :: nat

text \<open>The globals at program start: a zeroed array, both cursors at its first byte.\<close>

definition oq_init :: "nat \<Rightarrow> oq" where
  "oq_init rs = \<lparr>oqueue = replicate (OQSZ rs) 0, oqhead = 0, oqtail = 0\<rparr>"

definition oqnext :: "nat \<Rightarrow> nat \<Rightarrow> nat" where
  "oqnext rs p = (let pnext = p + OQENTRYSZ in if pnext = OQSZ rs then 0 else pnext)"

definition oqpush :: "nat \<Rightarrow> oq \<Rightarrow> u8 \<Rightarrow> u8 \<Rightarrow> u8 \<Rightarrow> u8 \<Rightarrow> u8 \<times> oq" where
  "oqpush rs q v1 v2 v3 v4 =
     (let p = oqnext rs (oqhead q) in
      if p = oqtail q then (0, q)
      else (1, q\<lparr>oqueue := (oqueue q)[oqhead q := v1, oqhead q + 1 := v2,
                                        oqhead q + 2 := v3, oqhead q + 3 := v4],
                 oqhead := p\<rparr>))"

definition oqempty :: "oq \<Rightarrow> u8" where
  "oqempty q = (if oqhead q = oqtail q then 1 else 0)"

text \<open>
  \<^verbatim>\<open>oqpop\<close> writes through four pointers. The model takes the current contents of the
  four cells and returns their contents afterwards, so that the early return, which
  writes nothing, is visible.
\<close>

definition oqpop :: "nat \<Rightarrow> oq \<Rightarrow> entry \<Rightarrow> u8 \<times> entry \<times> oq" where
  "oqpop rs q cells =
     (if oqempty q \<noteq> 0 then (0, cells, q)
      else (1, (oqueue q ! oqtail q, oqueue q ! (oqtail q + 1),
                oqueue q ! (oqtail q + 2), oqueue q ! (oqtail q + 3)),
            q\<lparr>oqtail := oqnext rs (oqtail q)\<rparr>))"

text \<open>
  The state invariant of the output queue: the array has its declared size, and each
  cursor is the offset of an entry inside it.
\<close>

definition oq_inv :: "nat \<Rightarrow> oq \<Rightarrow> bool" where
  "oq_inv rs q \<longleftrightarrow>
     length (oqueue q) = OQSZ rs \<and>
     oqhead q < OQSZ rs \<and> oqhead q mod OQENTRYSZ = 0 \<and>
     oqtail q < OQSZ rs \<and> oqtail q mod OQENTRYSZ = 0"

subsection \<open>Number of entries and contents\<close>

text \<open>
  The number of entries between the tail and the head, and the contents of the queue:
  what successive calls of \<^verbatim>\<open>oqpop\<close> deliver until it reports the queue empty.
\<close>

definition oq_count :: "nat \<Rightarrow> oq \<Rightarrow> nat" where
  "oq_count rs q = ((oqhead q + OQSZ rs - oqtail q) mod OQSZ rs) div OQENTRYSZ"

fun oq_drain :: "nat \<Rightarrow> nat \<Rightarrow> oq \<Rightarrow> entry list" where
  "oq_drain rs 0 q = []"
| "oq_drain rs (Suc n) q =
     (case oqpop rs q (0, 0, 0, 0) of
        (r, e, q') \<Rightarrow> if r = 0 then [] else e # oq_drain rs n q')"

definition oq_contents :: "nat \<Rightarrow> oq \<Rightarrow> entry list" where
  "oq_contents rs q = oq_drain rs (OQSZ rs div OQENTRYSZ) q"

text \<open>Pushing a list of entries one after the other, collecting the return values.\<close>

fun oqpush_all :: "nat \<Rightarrow> oq \<Rightarrow> entry list \<Rightarrow> u8 list \<times> oq" where
  "oqpush_all rs q [] = ([], q)"
| "oqpush_all rs q ((v1, v2, v3, v4) # es) =
     (case oqpush rs q v1 v2 v3 v4 of
        (r, q') \<Rightarrow> (case oqpush_all rs q' es of (rets, q'') \<Rightarrow> (r # rets, q'')))"

text \<open>
  A full queue on a device with 2560 bytes of RAM (\<^verbatim>\<open>OQSZ\<close> = 2048, 512 slots): the
  head stands on the last slot, the tail on the first.
\<close>

definition q_full :: oq where
  "q_full = \<lparr>oqueue = replicate 2048 0, oqhead = 2044, oqtail = 0\<rparr>"

text \<open>
  An empty queue on the same device with both cursors in the middle of the array, so that
  filling it takes the head past the end of the array.
\<close>

definition q_mid :: oq where
  "q_mid = \<lparr>oqueue = replicate 2048 0, oqhead = 1024, oqtail = 1024\<rparr>"

subsection \<open>Capture interrupt routines\<close>

text \<open>
  The routines are naked assembly over the registers pinned in \<^verbatim>\<open>register_vars.h\<close>:
  r3 \<^verbatim>\<open>pinstate\<close>, r4 \<^verbatim>\<open>tcnt1l\<close>, r5 \<^verbatim>\<open>tcnt1h\<close>, r6 \<^verbatim>\<open>eifrclr\<close>, r26 \<^verbatim>\<open>iqhead\<close>,
  r27 \<^verbatim>\<open>iqpage\<close>; r1 is the compiler's \<^verbatim>\<open>__zero_reg__\<close>. The pair r27:r26 is the X
  pointer. Data memory is a function from addresses to bytes.
\<close>

datatype reg = R1 | R3 | R4 | R5 | R6 | R26 | R27

record cpu =
  regs :: "reg \<Rightarrow> u8"
  ram :: "nat \<Rightarrow> u8"

text \<open>What the hardware presents to one invocation: the capture port and the timer.\<close>

record io_in =
  pin_in :: u8
  tcnt1l_in :: u8
  tcnt1h_in :: u8

datatype instr =
    OUT_flag reg
  | IN_pin reg
  | LDS_tcnt1l reg
  | LDS_tcnt1h reg
  | ST_Xinc reg
  | LDI reg u8
  | RETI

text \<open>The effects of an invocation that are visible outside the register file.\<close>

datatype event =
    FlagClear u8
  | PortRead u8
  | TimerLoRead u8
  | TimerHiRead u8
  | Store nat u8
  | Return

definition X_addr :: "cpu \<Rightarrow> nat" where
  "X_addr c = 256 * unat (regs c R27) + unat (regs c R26)"

definition X_inc :: "cpu \<Rightarrow> cpu" where
  "X_inc c = c\<lparr>regs := (regs c)(R26 := regs c R26 + 1,
                                   R27 := regs c R27 + (if regs c R26 = 255 then 1 else 0))\<rparr>"

fun exec :: "io_in \<Rightarrow> instr \<Rightarrow> cpu \<Rightarrow> event list \<times> cpu" where
  "exec io (OUT_flag r) c = ([FlagClear (regs c r)], c)"
| "exec io (IN_pin r) c = ([PortRead (pin_in io)], c\<lparr>regs := (regs c)(r := pin_in io)\<rparr>)"
| "exec io (LDS_tcnt1l r) c =
     ([TimerLoRead (tcnt1l_in io)], c\<lparr>regs := (regs c)(r := tcnt1l_in io)\<rparr>)"
| "exec io (LDS_tcnt1h r) c =
     ([TimerHiRead (tcnt1h_in io)], c\<lparr>regs := (regs c)(r := tcnt1h_in io)\<rparr>)"
| "exec io (ST_Xinc r) c =
     ([Store (X_addr c) (regs c r)], X_inc (c\<lparr>ram := (ram c)(X_addr c := regs c r)\<rparr>))"
| "exec io (LDI r v) c = ([], c\<lparr>regs := (regs c)(r := v)\<rparr>)"
| "exec io RETI c = ([Return], c)"

fun run :: "io_in \<Rightarrow> instr list \<Rightarrow> cpu \<Rightarrow> event list \<times> cpu" where
  "run io [] c = ([], c)"
| "run io (i # is) c =
     (case exec io i c of (ev, c') \<Rightarrow> (case run io is c' of (evs, c'') \<Rightarrow> (ev @ evs, c'')))"

text \<open>The macro \<^verbatim>\<open>_CAPTURE_ISR(capflag)\<close> and its two uses.\<close>

definition CAPTURE_ISR_body :: "reg \<Rightarrow> instr list" where
  "CAPTURE_ISR_body capflag =
     [OUT_flag R6, IN_pin R3, LDS_tcnt1l R4, LDS_tcnt1h R5,
      ST_Xinc R4, ST_Xinc R5, ST_Xinc R3, ST_Xinc capflag, LDI R27 IQPAGE, RETI]"

definition TIMER_ISR :: "instr list" where
  "TIMER_ISR = CAPTURE_ISR_body R1"

definition CAPTURE_ISR :: "instr list" where
  "CAPTURE_ISR = CAPTURE_ISR_body R6"

text \<open>
  The interrupt vectors: the timer overflow runs \<^verbatim>\<open>TIMER_ISR\<close>; INT0 to INT3 and PCINT0
  all run \<^verbatim>\<open>CAPTURE_ISR\<close>.
\<close>

datatype irq = TIMER1_OVF | EDGE

definition isr :: "irq \<Rightarrow> instr list" where
  "isr v = (case v of TIMER1_OVF \<Rightarrow> TIMER_ISR | EDGE \<Rightarrow> CAPTURE_ISR)"

subsection \<open>The main loop\<close>

text \<open>
  The state of \<^verbatim>\<open>main\<close> inside its loop. \<^verbatim>\<open>iqhead\<close> is register r26 of \<open>mcu\<close>, and
  \<^verbatim>\<open>iqueue\<close> is the memory at address \<^verbatim>\<open>IQPAGE << 8\<close>. \<open>usb_tx\<close> is the sequence of
  characters handed to \<^verbatim>\<open>usb_debug_putchar\<close>. Two fields record history and are read by
  no code: \<open>dequeued\<close>, the samples the dispatcher has taken from the input queue,
  \<open>oqlog\<close>, its calls of \<^verbatim>\<open>oqpush\<close> with their return values, and \<open>popped\<close>, the
  entries the formatter has taken from the output queue.
\<close>

record mstate =
  mcu :: cpu
  iqtail :: u8
  prev_pv :: u8
  allow_timer_events :: u8
  oqs :: oq
  obuf :: "u8 list"
  obuf_idx :: u8
  remaining :: u8
  usb_tx :: "u8 list"
  dequeued :: "entry list"
  oqlog :: "(entry \<times> u8) list"
  popped :: "entry list"

definition max_timer_events :: u8 where
  "max_timer_events = 2"

definition items_per_line :: u8 where
  "items_per_line = 10"

definition iqueue :: "cpu \<Rightarrow> nat \<Rightarrow> u8" where
  "iqueue c i = ram c (unat IQPAGE * 256 + i)"

text \<open>
  Lines 204 to 221. The index \<^verbatim>\<open>iqtail+1\<close> is computed in \<^verbatim>\<open>int\<close>, so it does not wrap;
  \<^verbatim>\<open>iqtail += IQENTRYSZ\<close> does.
\<close>

definition dispatcher :: "nat \<Rightarrow> mstate \<Rightarrow> mstate" where
  "dispatcher rs st =
     (if regs (mcu st) R26 \<noteq> iqtail st then
        (let tlo = iqueue (mcu st) (unat (iqtail st));
             thi = iqueue (mcu st) (unat (iqtail st) + 1);
             pv = iqueue (mcu st) (unat (iqtail st) + 2);
             kind = iqueue (mcu st) (unat (iqtail st) + 3);
             is_timer_event = (if kind = 0 then 1 else 0);
             st1 = st\<lparr>iqtail := iqtail st + IQENTRYSZ, prev_pv := pv,
                      dequeued := dequeued st @ [(tlo, thi, pv, kind)]\<rparr>
         in if is_timer_event \<noteq> 0 then
              (if allow_timer_events st1 \<noteq> 0 then
                 (case oqpush rs (oqs st1) tlo thi pv is_timer_event of
                    (r, q') \<Rightarrow>
                      st1\<lparr>oqs := q',
                          oqlog := oqlog st1 @ [((tlo, thi, pv, is_timer_event), r)],
                          allow_timer_events := allow_timer_events st1 - 1\<rparr>)
               else st1)
            else
              (case oqpush rs (oqs st1) tlo thi pv is_timer_event of
                 (r, q') \<Rightarrow>
                   st1\<lparr>oqs := q',
                       oqlog := oqlog st1 @ [((tlo, thi, pv, is_timer_event), r)],
                       allow_timer_events := max_timer_events\<rparr>))
      else st)"

text \<open>
  Lines 227 to 243: the text of one entry, written into the line buffer, and the static
  counter \<^verbatim>\<open>remaining\<close>.
\<close>

definition format_entry :: "u8 list \<times> u8 \<Rightarrow> entry \<Rightarrow> u8 list \<times> u8" where
  "format_entry br e =
     (case (br, e) of ((b, rem), (tlo, thi, pv, tf)) \<Rightarrow>
        (let b7 = b[0 := hex (drop_bit 4 thi), 1 := hex (thi AND 0x0F),
                    2 := hex (drop_bit 4 tlo), 3 := hex (tlo AND 0x0F),
                    4 := hex (drop_bit 4 pv), 5 := hex (pv AND 0x0F),
                    6 := hex (tf AND 0x01)];
             rem' = rem - 1
         in if rem' \<noteq> 0 then (b7[7 := of_char CHR '' '', 8 := 0], rem')
            else (b7[7 := 0x0A, 8 := 0], items_per_line)))"

text \<open>
  Lines 224 to 245. The four locals are not initialised in the source; the guard has
  just seen the queue not empty, so \<^verbatim>\<open>oqpop\<close> overwrites them whatever they hold.
\<close>

definition formatter :: "nat \<Rightarrow> mstate \<Rightarrow> mstate" where
  "formatter rs st =
     (if obuf st ! unat (obuf_idx st) = 0 \<and> oqempty (oqs st) = 0 then
        (case oqpop rs (oqs st) (0, 0, 0, 0) of
           (r, e, q') \<Rightarrow>
             (case format_entry (obuf st, remaining st) e of
                (b, rem) \<Rightarrow> st\<lparr>oqs := q', obuf := b, remaining := rem, obuf_idx := 0,
                               popped := popped st @ [e]\<rparr>))
      else st)"

text \<open>
  Lines 248 to 250. \<open>ready\<close> is what \<^verbatim>\<open>usb_debug_ready()\<close> answers in this pass.
\<close>

definition transmitter :: "bool \<Rightarrow> mstate \<Rightarrow> mstate" where
  "transmitter ready st =
     (if obuf st ! unat (obuf_idx st) \<noteq> 0 \<and> ready then
        st\<lparr>usb_tx := usb_tx st @ [obuf st ! unat (obuf_idx st)],
            obuf_idx := obuf_idx st + 1\<rparr>
      else st)"

text \<open>
  An interrupt runs its routine on the registers and the memory. The routines touch
  nothing the formatter or the transmitter read, and the dispatcher reads the entry at
  the tail, which a routine writes only when the input queue overruns; so the interrupts
  of one pass are placed at its beginning.
\<close>

definition interrupt :: "irq \<times> io_in \<Rightarrow> mstate \<Rightarrow> mstate" where
  "interrupt vi st = st\<lparr>mcu := snd (run (snd vi) (isr (fst vi)) (mcu st))\<rparr>"

definition main_pass :: "nat \<Rightarrow> (irq \<times> io_in) list \<times> bool \<Rightarrow> mstate \<Rightarrow> mstate" where
  "main_pass rs env st =
     transmitter (snd env) (formatter rs (dispatcher rs (fold interrupt (fst env) st)))"

text \<open>
  \<^verbatim>\<open>while ( 1 )\<close> never ends; \<open>main_loop\<close> gives the state after as many passes as the
  environment lists.
\<close>

fun main_loop :: "nat \<Rightarrow> ((irq \<times> io_in) list \<times> bool) list \<Rightarrow> mstate \<Rightarrow> mstate" where
  "main_loop rs [] st = st"
| "main_loop rs (env # envs) st = main_loop rs envs (main_pass rs env st)"

text \<open>
  Modelled from the spec: \<^verbatim>\<open>print_P\<close> (declared in \<^verbatim>\<open>print.h\<close>, defined in a file that
  is not part of the sources) hands the characters of the banner string to the debug
  channel, in order.
\<close>

definition print_P :: "u8 list \<Rightarrow> u8 list \<Rightarrow> u8 list" where
  "print_P s tx = tx @ s"

definition banner :: "u8 list" where
  "banner = map of_char ''sctrace v1.01''"

text \<open>
  The state on entry to the loop (lines 161 to 201), for the capture port \<open>cp\<close>, the
  memory \<open>ram0\<close> and the port value \<open>pin0\<close> read at line 186. r1 is zero by the
  compiler's convention, and \<^verbatim>\<open>obuf\<close> is static, hence zeroed.
\<close>

definition main_start :: "capture_port \<Rightarrow> nat \<Rightarrow> (nat \<Rightarrow> u8) \<Rightarrow> u8 \<Rightarrow> mstate" where
  "main_start cp rs ram0 pin0 =
     \<lparr>mcu = \<lparr>regs = (\<lambda>_. 0)(R27 := IQPAGE, R26 := 0, R6 := INTERRUPT_FLAG_CLEAR cp),
              ram = ram0\<rparr>,
      iqtail = 0, prev_pv = pin0, allow_timer_events = max_timer_events,
      oqs = oq_init rs, obuf = replicate 16 0, obuf_idx = 0, remaining = items_per_line,
      usb_tx = print_P (banner @ [0x0A]) [], dequeued = [], oqlog = [], popped = []\<rparr>"

subsection \<open>Derived notions\<close>

text \<open>The entry of the input queue at the cursor \<open>t\<close>.\<close>

definition iq_entry :: "cpu \<Rightarrow> u8 \<Rightarrow> entry" where
  "iq_entry c t = (iqueue c (unat t), iqueue c (unat t + 1), iqueue c (unat t + 2),
                   iqueue c (unat t + 3))"

text \<open>
  The input queue. It has 64 slots of four bytes in the page \<^verbatim>\<open>IQPAGE\<close>; the routines do
  not look at the tail, so the head reaches the tail again after 64 pushes without a pop
  and the queue then looks empty. It holds at most 63 entries.
\<close>

definition IQ_CAPACITY :: nat where
  "IQ_CAPACITY = 63"

definition iq_count :: "mstate \<Rightarrow> nat" where
  "iq_count st = unat (regs (mcu st) R26 - iqtail st) div 4"

definition iq_pending :: "mstate \<Rightarrow> entry list" where
  "iq_pending st =
     map (\<lambda>i. iq_entry (mcu st) (iqtail st + 4 * of_nat i)) [0..<iq_count st]"

text \<open>
  The registers as \<^verbatim>\<open>main\<close> sets them up and the routines keep them, and the tail at an
  entry.
\<close>

definition iq_inv :: "capture_port \<Rightarrow> mstate \<Rightarrow> bool" where
  "iq_inv cp st \<longleftrightarrow>
     regs (mcu st) R27 = IQPAGE \<and> regs (mcu st) R1 = 0 \<and>
     regs (mcu st) R6 = INTERRUPT_FLAG_CLEAR cp \<and>
     unat (regs (mcu st) R26) mod 4 = 0 \<and> unat (iqtail st) mod 4 = 0"

text \<open>The sample an interrupt produces, and the samples produced in a run of passes.\<close>

definition sample_of :: "capture_port \<Rightarrow> irq \<times> io_in \<Rightarrow> entry" where
  "sample_of cp vi =
     (tcnt1l_in (snd vi), tcnt1h_in (snd vi), pin_in (snd vi),
      case fst vi of TIMER1_OVF \<Rightarrow> 0 | EDGE \<Rightarrow> INTERRUPT_FLAG_CLEAR cp)"

definition produced :: "capture_port \<Rightarrow> ((irq \<times> io_in) list \<times> bool) list \<Rightarrow> entry list" where
  "produced cp envs = concat (map (\<lambda>env. map (sample_of cp) (fst env)) envs)"

text \<open>
  No pass of the run finds, with the interrupts it takes, more samples waiting than the
  input queue holds.
\<close>

fun within_capacity :: "nat \<Rightarrow> ((irq \<times> io_in) list \<times> bool) list \<Rightarrow> mstate \<Rightarrow> bool" where
  "within_capacity rs [] st \<longleftrightarrow> True"
| "within_capacity rs (env # envs) st \<longleftrightarrow>
     iq_count st + length (fst env) \<le> IQ_CAPACITY \<and>
     within_capacity rs envs (main_pass rs env st)"

text \<open>
  The entry the dispatcher makes of a sample: the fourth byte becomes the timer flag.
\<close>

definition oq_entry_of :: "entry \<Rightarrow> entry" where
  "oq_entry_of s = (case s of (tlo, thi, pv, kind) \<Rightarrow> (tlo, thi, pv, if kind = 0 then 1 else 0))"

definition kind_of :: "entry \<Rightarrow> u8" where
  "kind_of s = snd (snd (snd s))"

text \<open>
  The entries the dispatcher hands to \<^verbatim>\<open>oqpush\<close>, and those for which \<^verbatim>\<open>oqpush\<close>
  returned success.
\<close>

definition forwarded :: "mstate \<Rightarrow> entry list" where
  "forwarded st = map fst (oqlog st)"

definition stored :: "mstate \<Rightarrow> entry list" where
  "stored st = map fst (filter (\<lambda>x. snd x \<noteq> 0) (oqlog st))"

text \<open>
  Lines 212 to 220 on a list of dequeued samples, without the queue: the entries handed
  to \<^verbatim>\<open>oqpush\<close> and the allowance left. It is used in the proofs to describe \<open>oqlog\<close>.
\<close>

fun throttle :: "u8 \<Rightarrow> entry list \<Rightarrow> entry list \<times> u8" where
  "throttle a [] = ([], a)"
| "throttle a (s # ss) =
     (if kind_of s = 0 then
        (if a \<noteq> 0 then (oq_entry_of s # fst (throttle (a - 1) ss), snd (throttle (a - 1) ss))
         else throttle a ss)
      else (oq_entry_of s # fst (throttle max_timer_events ss),
            snd (throttle max_timer_events ss)))"

text \<open>
  What a later state \<open>st'\<close> adds to the history of \<open>st\<close> when the dispatcher has taken
  the samples \<open>new\<close> in between.
\<close>

definition log_ext :: "mstate \<Rightarrow> mstate \<Rightarrow> entry list \<Rightarrow> bool" where
  "log_ext st st' new \<longleftrightarrow>
     dequeued st' = dequeued st @ new \<and>
     forwarded st' = forwarded st @ fst (throttle (allow_timer_events st) new) \<and>
     allow_timer_events st' = snd (throttle (allow_timer_events st) new)"

text \<open>
  The entries for which \<^verbatim>\<open>oqpush\<close> returned success are those the formatter has
  taken, followed by those in the output queue.
\<close>

definition store_inv :: "nat \<Rightarrow> mstate \<Rightarrow> bool" where
  "store_inv rs st \<longleftrightarrow>
     oq_inv rs (oqs st) \<and> stored st = popped st @ oq_contents rs (oqs st)"

text \<open>The transmitted text: the positions at which a pattern occurs in a stream.\<close>

definition occurrences :: "u8 list \<Rightarrow> u8 list \<Rightarrow> nat list" where
  "occurrences p s = filter (\<lambda>i. take (length p) (drop i s) = p) [0..<Suc (length s)]"

definition text_chars :: "u8 set" where
  "text_chars = set (map of_char ''0123456789ABCDEF'') \<union> {of_char CHR '' '', 0x0A}"

text \<open>
  What every pass keeps true of the line buffer and of the transmitted text: the buffer
  has its 16 bytes, the cursor stays within the nine bytes the formatter writes, the
  ninth is the terminator, and everything sent after the banner line is a hex digit or a
  separator.
\<close>

definition tx_inv :: "mstate \<Rightarrow> bool" where
  "tx_inv st \<longleftrightarrow>
     length (obuf st) = 16 \<and> unat (obuf_idx st) \<le> 8 \<and> obuf st ! 8 = 0 \<and>
     set (obuf st) \<subseteq> insert 0 text_chars \<and>
     take 14 (usb_tx st) = banner @ [0x0A] \<and> set (drop 14 (usb_tx st)) \<subseteq> text_chars"

text \<open>
  The state the formatter sees in a pass: the interrupts of the pass taken and the
  dispatcher run.
\<close>

definition pass_mid :: "nat \<Rightarrow> (irq \<times> io_in) list \<Rightarrow> mstate \<Rightarrow> mstate" where
  "pass_mid rs irqs st = dispatcher rs (fold interrupt irqs st)"

text \<open>
  What every pass keeps true of the formatter's static data: the line buffer has its 16
  bytes, nothing has been written beyond the ninth, and \<^verbatim>\<open>remaining\<close> is 10 less the
  number of entries rendered since the last line break.
\<close>

definition fmt_inv :: "mstate \<Rightarrow> bool" where
  "fmt_inv st \<longleftrightarrow>
     length (obuf st) = 16 \<and> drop 9 (obuf st) = replicate 7 0 \<and>
     remaining st = of_nat (10 - length (popped st) mod 10)"

text \<open>
  The text of a group: the seven digits of an entry and the separator that follows the
  group number \<open>k + 1\<close> of the stream.
\<close>

definition group_text :: "nat \<Rightarrow> entry \<Rightarrow> u8 list" where
  "group_text k e =
     (case e of (tlo, thi, pv, tf) \<Rightarrow>
        [hex (drop_bit 4 thi), hex (thi AND 0x0F), hex (drop_bit 4 tlo), hex (tlo AND 0x0F),
         hex (drop_bit 4 pv), hex (pv AND 0x0F), hex (tf AND 0x01),
         if Suc k mod 10 = 0 then 0x0A else of_char CHR '' ''])"

text \<open>The characters of the line buffer that the transmitter has still to send.\<close>

definition pending_text :: "mstate \<Rightarrow> u8 list" where
  "pending_text st = takeWhile (\<lambda>c. c \<noteq> 0) (drop (unat (obuf_idx st)) (obuf st))"

text \<open>
  What every pass keeps true of the transmitted text: with the characters still waiting
  in the line buffer it is the banner line followed by the groups of the entries rendered
  so far.
\<close>

definition stream_inv :: "mstate \<Rightarrow> bool" where
  "stream_inv st \<longleftrightarrow>
     fmt_inv st \<and> unat (obuf_idx st) \<le> 8 \<and> obuf st ! 8 = 0 \<and>
     usb_tx st @ pending_text st =
       banner @ [0x0A] @ concat (map2 group_text [0..<length (popped st)] (popped st))"

text \<open>
  What a later state \<open>st'\<close> adds to the output queue of \<open>st\<close>: the formatter has taken the
  entries \<open>taken\<close>, \<^verbatim>\<open>oqpush\<close> has been called as \<open>calls\<close> lists with its results, and the
  entries taken followed by the contents of the queue are the old contents followed by
  the entries pushed with success. No call fails while the old contents and the entries
  pushed fit into the queue.
\<close>

definition queue_ext :: "nat \<Rightarrow> mstate \<Rightarrow> mstate \<Rightarrow> entry list \<Rightarrow> (entry \<times> u8) list \<Rightarrow> bool" where
  "queue_ext rs st st' taken calls \<longleftrightarrow>
     popped st' = popped st @ taken \<and> oqlog st' = oqlog st @ calls \<and>
     oq_inv rs (oqs st') \<and>
     taken @ oq_contents rs (oqs st') =
       oq_contents rs (oqs st) @ map fst (filter (\<lambda>x. snd x \<noteq> 0) calls) \<and>
     (length (oq_contents rs (oqs st)) + length calls \<le> OQSZ rs div OQENTRYSZ - 1 \<longrightarrow>
        filter (\<lambda>x. snd x \<noteq> 0) calls = calls)"

subsection \<open>Concrete inputs\<close>

definition ram_zero :: "nat \<Rightarrow> u8" where
  "ram_zero = (\<lambda>_. 0)"

definition io_3A01F0 :: io_in where
  "io_3A01F0 = \<lparr>pin_in = 0xF0, tcnt1l_in = 0x3A, tcnt1h_in = 0x01\<rparr>"

text \<open>
  One pass of the loop on a device with 2560 bytes of RAM capturing on port B, in which
  one edge interrupt has fired and the debug channel is not ready.
\<close>

definition one_edge_run :: mstate where
  "one_edge_run =
     main_loop 2560 [([(EDGE, io_3A01F0)], False)] (main_start PortB 2560 ram_zero 0xFF)"

text \<open>The registers and memory on entry to the loop when capturing on port D.\<close>

definition cpu_start :: cpu where
  "cpu_start = mcu (main_start PortD 2560 ram_zero 0xFF)"

text \<open>
  The debug channel never ready while 513 edges arrive, one in each pass; and what holds
  after the first \<open>n\<close> of these passes, for \<open>n\<close> from 1 to 512: the input queue is empty
  again, the line buffer still holds the text of the first entry, the output queue
  holds the other \<open>n - 1\<close> entries, and the allowance of timer ticks is full.
\<close>

definition edge_env :: "(irq \<times> io_in) list \<times> bool" where
  "edge_env = ([(EDGE, io_3A01F0)], False)"

definition stalled_run :: mstate where
  "stalled_run =
     main_loop 2560 (replicate 513 edge_env) (main_start PortD 2560 ram_zero 0xFF)"

definition stalled_inv :: "nat \<Rightarrow> mstate \<Rightarrow> bool" where
  "stalled_inv n st \<longleftrightarrow>
     iq_inv PortD st \<and> regs (mcu st) R26 = iqtail st \<and>
     oq_inv 2560 (oqs st) \<and> oq_count 2560 (oqs st) = n - 1 \<and>
     obuf st ! unat (obuf_idx st) \<noteq> 0 \<and>
     allow_timer_events st = max_timer_events \<and>
     dequeued st = replicate n (0x3A, 0x01, 0xF0, 0x0F) \<and>
     oqlog st = replicate n ((0x3A, 0x01, 0xF0, 0), 1)"

text \<open>Three timer overflows and then an edge, one interrupt in each pass.\<close>

definition io_tick :: io_in where
  "io_tick = \<lparr>pin_in = 0xFF, tcnt1l_in = 0x05, tcnt1h_in = 0x00\<rparr>"

definition throttle_run_envs :: "((irq \<times> io_in) list \<times> bool) list" where
  "throttle_run_envs =
     [([(TIMER1_OVF, io_tick)], True), ([(TIMER1_OVF, io_tick)], True),
      ([(TIMER1_OVF, io_tick)], True), ([(EDGE, io_3A01F0)], True)]"

definition throttle_run :: mstate where
  "throttle_run = main_loop 2560 throttle_run_envs (main_start PortD 2560 ram_zero 0xFF)"

text \<open>
  The run of three timer overflows and an edge continued by four passes without
  interrupts, the debug channel ready in every pass: the text of the first entry has been
  sent and the second entry waits in the output queue.
\<close>

definition idle_env :: "(irq \<times> io_in) list \<times> bool" where
  "idle_env = ([], True)"

definition waiting_run :: mstate where
  "waiting_run =
     main_loop 2560 (throttle_run_envs @ [idle_env, idle_env, idle_env, idle_env])
       (main_start PortD 2560 ram_zero 0xFF)"




text \<open>
  Input overrun. 64 edges in one pass; and two edges in each of 63 passes, of which the
  dispatcher takes one in each pass, so that 62 samples wait before the last pass.
\<close>

definition burst_env :: "(irq \<times> io_in) list \<times> bool" where
  "burst_env = (replicate 64 (EDGE, io_3A01F0), False)"

definition burst_run :: mstate where
  "burst_run = main_loop 2560 [burst_env] (main_start PortD 2560 ram_zero 0xFF)"

definition pair_env :: "(irq \<times> io_in) list \<times> bool" where
  "pair_env = ([(EDGE, io_3A01F0), (EDGE, io_3A01F0)], False)"

definition pair_run :: mstate where
  "pair_run = main_loop 2560 (replicate 63 pair_env) (main_start PortD 2560 ram_zero 0xFF)"

section \<open>Properties of the output queue\<close>

lemma OQSZ_mod: "OQSZ rs mod 4 = 0"
  by (simp add: OQSZ_def OQENTRYSZ_def)

lemma oqnext_inv:
  assumes "p < OQSZ rs" and "p mod 4 = 0"
  shows "oqnext rs p < OQSZ rs \<and> oqnext rs p mod 4 = 0"
proof -
  have m: "OQSZ rs mod 4 = 0" by (rule OQSZ_mod)
  from assms m have "p + 4 \<le> OQSZ rs" by presburger
  with assms show ?thesis
    by (auto simp: oqnext_def OQENTRYSZ_def Let_def)
qed

lemma entry_in_bounds:
  assumes "p < OQSZ rs" and "p mod 4 = 0"
  shows "p + 3 < OQSZ rs"
proof -
  have m: "OQSZ rs mod 4 = 0" by (rule OQSZ_mod)
  from assms m show ?thesis by presburger
qed

lemma oq_init_inv: "0 < OQSZ rs \<Longrightarrow> oq_inv rs (oq_init rs)"
  by (simp add: oq_inv_def oq_init_def)

lemma oqpush_inv: "oq_inv rs q \<Longrightarrow> oq_inv rs (snd (oqpush rs q v1 v2 v3 v4))"
  using oqnext_inv [of "oqhead q" rs]
  by (simp add: oq_inv_def oqpush_def Let_def OQENTRYSZ_def)

lemma oqpop_inv: "oq_inv rs q \<Longrightarrow> oq_inv rs (snd (snd (oqpop rs q cells)))"
  using oqnext_inv [of "oqtail q" rs]
  by (simp add: oq_inv_def oqpop_def Let_def OQENTRYSZ_def)

lemma ring_dist:
  fixes a b n :: nat
  assumes "a < n" and "b < n"
  shows "((4 * a + 4 * n - 4 * b) mod (4 * n)) div 4 = (if b \<le> a then a - b else a + n - b)"
proof -
  have "4 * a + 4 * n - 4 * b = 4 * (a + n - b)" by simp
  then have "((4 * a + 4 * n - 4 * b) mod (4 * n)) div 4 = (a + n - b) mod n"
    by (simp only: mult_mod_right [symmetric])
  also have "\<dots> = (if b \<le> a then a - b else a + n - b)"
  proof (cases "b \<le> a")
    case True
    then have "(a + n - b) mod n = ((a - b) + n) mod n" by simp
    also have "\<dots> = (a - b) mod n" by (rule mod_add_self2)
    also have "\<dots> = a - b" using assms by simp
    finally show ?thesis using True by simp
  next
    case False
    with assms show ?thesis by simp
  qed
  finally show ?thesis .
qed

lemma oq_inv_slots:
  assumes "oq_inv rs q"
  obtains a b n where "oqhead q = 4 * a" "oqtail q = 4 * b" "OQSZ rs = 4 * n" "a < n" "b < n"
    "length (oqueue q) = 4 * n"
proof -
  from assms have f: "oqhead q < OQSZ rs" "oqhead q mod 4 = 0" "oqtail q < OQSZ rs"
    "oqtail q mod 4 = 0" "length (oqueue q) = OQSZ rs"
    by (simp_all add: oq_inv_def OQENTRYSZ_def)
  have s: "OQSZ rs = 4 * (OQSZ rs div 4)" using OQSZ_mod [of rs] by presburger
  have h: "oqhead q = 4 * (oqhead q div 4)" using f(2) by presburger
  have t: "oqtail q = 4 * (oqtail q div 4)" using f(4) by presburger
  have "oqhead q div 4 < OQSZ rs div 4" using f(1) h s by linarith
  moreover have "oqtail q div 4 < OQSZ rs div 4" using f(3) t s by linarith
  ultimately show ?thesis using that [OF h t s] f(5) s by simp
qed

lemma oq_count_slots:
  assumes "oqhead q = 4 * a" "oqtail q = 4 * b" "OQSZ rs = 4 * n" "a < n" "b < n"
  shows "oq_count rs q = (if b \<le> a then a - b else a + n - b)"
  unfolding oq_count_def OQENTRYSZ_def assms(1-3) using assms(4,5) by (rule ring_dist)

lemma oqnext_slots:
  assumes "OQSZ rs = 4 * n"
  shows "oqnext rs (4 * a) = (if Suc a = n then 0 else 4 * Suc a)"
  using assms by (simp add: oqnext_def OQENTRYSZ_def Let_def)

lemma oq_count_empty:
  assumes "oq_inv rs q"
  shows "oq_count rs q = 0 \<longleftrightarrow> oqhead q = oqtail q"
proof -
  from assms obtain a b n where s: "oqhead q = 4 * a" "oqtail q = 4 * b" "OQSZ rs = 4 * n"
    "a < n" "b < n" by (rule oq_inv_slots)
  show ?thesis unfolding oq_count_slots [OF s] using s by auto
qed

lemma oq_count_less:
  assumes "oq_inv rs q"
  shows "oq_count rs q < OQSZ rs div 4"
proof -
  from assms obtain a b n where s: "oqhead q = 4 * a" "oqtail q = 4 * b" "OQSZ rs = 4 * n"
    "a < n" "b < n" by (rule oq_inv_slots)
  show ?thesis unfolding oq_count_slots [OF s] using s by auto
qed

lemma oq_count_full:
  assumes "oq_inv rs q"
  shows "oqnext rs (oqhead q) = oqtail q \<longleftrightarrow> oq_count rs q = OQSZ rs div 4 - 1"
proof -
  from assms obtain a b n where s: "oqhead q = 4 * a" "oqtail q = 4 * b" "OQSZ rs = 4 * n"
    "a < n" "b < n" by (rule oq_inv_slots)
  show ?thesis unfolding oq_count_slots [OF s] s(1) oqnext_slots [OF s(3)] using s by auto
qed

lemma oq_count_push:
  assumes "oq_inv rs q" and "oqnext rs (oqhead q) \<noteq> oqtail q"
  shows "oq_count rs (snd (oqpush rs q v1 v2 v3 v4)) = Suc (oq_count rs q)"
proof -
  from assms(1) obtain a b n where s: "oqhead q = 4 * a" "oqtail q = 4 * b" "OQSZ rs = 4 * n"
    "a < n" "b < n" by (rule oq_inv_slots)
  let ?q = "snd (oqpush rs q v1 v2 v3 v4)"
  let ?a = "if Suc a = n then 0 else Suc a"
  have h: "oqhead ?q = 4 * ?a"
    using assms(2) s(1) oqnext_slots [OF s(3), of a] by (simp add: oqpush_def Let_def)
  have t: "oqtail ?q = 4 * b"
    using assms(2) s(2) by (simp add: oqpush_def Let_def)
  have a: "?a < n" using s(4) by auto
  have ne: "?a \<noteq> b" using assms(2) s(1,2) oqnext_slots [OF s(3), of a] by auto
  show ?thesis
    unfolding oq_count_slots [OF h t s(3) a s(5)] oq_count_slots [OF s]
    using s(4,5) ne by auto
qed

lemma oq_count_pop:
  assumes "oq_inv rs q" and "oqhead q \<noteq> oqtail q"
  shows "Suc (oq_count rs (snd (snd (oqpop rs q cells)))) = oq_count rs q"
proof -
  from assms(1) obtain a b n where s: "oqhead q = 4 * a" "oqtail q = 4 * b" "OQSZ rs = 4 * n"
    "a < n" "b < n" by (rule oq_inv_slots)
  let ?q = "snd (snd (oqpop rs q cells))"
  let ?b = "if Suc b = n then 0 else Suc b"
  have h: "oqhead ?q = 4 * a"
    using assms(2) s(1) by (simp add: oqpop_def oqempty_def)
  have t: "oqtail ?q = 4 * ?b"
    using assms(2) s(2) oqnext_slots [OF s(3), of b] by (simp add: oqpop_def oqempty_def)
  have b: "?b < n" using s(5) by auto
  have ne: "a \<noteq> b" using assms(2) s(1,2) by auto
  show ?thesis
    unfolding oq_count_slots [OF h t s(3) s(4) b] oq_count_slots [OF s]
    using s(4,5) ne by auto
qed

lemma oqpop_nonempty:
  assumes "oqhead q \<noteq> oqtail q"
  shows "oqpop rs q cells =
    (1, (oqueue q ! oqtail q, oqueue q ! (oqtail q + 1), oqueue q ! (oqtail q + 2),
         oqueue q ! (oqtail q + 3)), q\<lparr>oqtail := oqnext rs (oqtail q)\<rparr>)"
  using assms by (simp add: oqpop_def oqempty_def)

lemma oqpush_ok:
  assumes "oqnext rs (oqhead q) \<noteq> oqtail q"
  shows "oqpush rs q v1 v2 v3 v4 =
    (1, q\<lparr>oqueue := (oqueue q)[oqhead q := v1, oqhead q + 1 := v2,
                                  oqhead q + 2 := v3, oqhead q + 3 := v4],
           oqhead := oqnext rs (oqhead q)\<rparr>)"
  using assms by (simp add: oqpush_def Let_def)

lemma oqnext_inj:
  assumes "oq_inv rs q" and "oqhead q \<noteq> oqtail q"
  shows "oqnext rs (oqhead q) \<noteq> oqnext rs (oqtail q)"
proof -
  from assms(1) obtain a b n where s: "oqhead q = 4 * a" "oqtail q = 4 * b" "OQSZ rs = 4 * n"
    "a < n" "b < n" by (rule oq_inv_slots)
  show ?thesis unfolding s(1,2) oqnext_slots [OF s(3)] using s assms(2) by auto
qed

text \<open>A pop after a push on a queue that was not empty delivers what the pop alone does.\<close>

lemma oqpop_oqpush:
  assumes i: "oq_inv rs q" and ne: "oqhead q \<noteq> oqtail q"
    and nf: "oqnext rs (oqhead q) \<noteq> oqtail q"
  shows "oqpop rs (snd (oqpush rs q v1 v2 v3 v4)) cells =
    (1, fst (snd (oqpop rs q cells)), snd (oqpush rs (snd (snd (oqpop rs q cells))) v1 v2 v3 v4))"
proof -
  from i obtain a b n where s: "oqhead q = 4 * a" "oqtail q = 4 * b" "OQSZ rs = 4 * n"
    "a < n" "b < n" "length (oqueue q) = 4 * n" by (rule oq_inv_slots)
  from ne s have ab: "a \<noteq> b" by auto
  have nf': "oqnext rs (oqhead q) \<noteq> oqnext rs (oqtail q)" using i ne by (rule oqnext_inj)
  have rd: "(oqueue q)[4 * a := v1, 4 * a + 1 := v2, 4 * a + 2 := v3, 4 * a + 3 := v4] ! (4 * b + k)
      = oqueue q ! (4 * b + k)" if "k < 4" for k
    using ab that by simp
  have rd0: "(oqueue q)[4 * a := v1, 4 * a + 1 := v2, 4 * a + 2 := v3, 4 * a + 3 := v4] ! (4 * b)
      = oqueue q ! (4 * b)"
    using rd [of 0] by simp
  show ?thesis
    using ne nf nf' rd [of 1] rd [of 2] rd [of 3] rd0
    by (simp add: oqpop_def oqempty_def oqpush_def Let_def s(1,2))
qed

lemma oq_drain_empty:
  assumes "oqhead q = oqtail q"
  shows "oq_drain rs n q = []"
  using assms by (cases n) (simp_all add: oqpop_def oqempty_def)

lemma oq_drain_push:
  assumes "oq_inv rs q" and "oqnext rs (oqhead q) \<noteq> oqtail q" and "oq_count rs q < n"
  shows "oq_drain rs n (snd (oqpush rs q v1 v2 v3 v4)) = oq_drain rs n q @ [(v1, v2, v3, v4)]"
  using assms
proof (induction n arbitrary: q)
  case 0
  then show ?case by simp
next
  case (Suc n)
  show ?case
  proof (cases "oqhead q = oqtail q")
    case True
    from Suc.prems(1) obtain a b m where s: "oqhead q = 4 * a" "oqtail q = 4 * b"
      "OQSZ rs = 4 * m" "a < m" "b < m" "length (oqueue q) = 4 * m" by (rule oq_inv_slots)
    have "oq_drain rs n (snd (snd (oqpop rs (snd (oqpush rs q v1 v2 v3 v4)) (0, 0, 0, 0)))) = []"
      using True Suc.prems(2)
      by (intro oq_drain_empty) (simp add: oqpush_def oqpop_def oqempty_def Let_def)
    moreover have "fst (oqpop rs (snd (oqpush rs q v1 v2 v3 v4)) (0, 0, 0, 0)) = 1"
      using True Suc.prems(2) by (simp add: oqpush_def oqpop_def oqempty_def Let_def)
    moreover have "fst (snd (oqpop rs (snd (oqpush rs q v1 v2 v3 v4)) (0, 0, 0, 0)))
        = (v1, v2, v3, v4)"
      using True Suc.prems(2) s
      by (simp add: oqpush_def oqpop_def oqempty_def Let_def)
    ultimately show ?thesis
      using True oq_drain_empty [OF True, of rs "Suc n"]
      by (simp add: case_prod_beta)
  next
    case False
    let ?q1 = "snd (snd (oqpop rs q (0, 0, 0, 0)))"
    have i1: "oq_inv rs ?q1" using Suc.prems(1) by (rule oqpop_inv)
    have nf1: "oqnext rs (oqhead ?q1) \<noteq> oqtail ?q1"
      using oqnext_inj [OF Suc.prems(1) False] False by (simp add: oqpop_def oqempty_def)
    have c1: "oq_count rs ?q1 < n"
      using oq_count_pop [OF Suc.prems(1) False, of "(0, 0, 0, 0)"] Suc.prems(3) by simp
    have ih: "oq_drain rs n (snd (oqpush rs ?q1 v1 v2 v3 v4)) = oq_drain rs n ?q1 @ [(v1, v2, v3, v4)]"
      using i1 nf1 c1 by (rule Suc.IH)
    have p: "fst (oqpop rs q (0, 0, 0, 0)) = 1" using False by (simp add: oqpop_def oqempty_def)
    show ?thesis
      using oqpop_oqpush [OF Suc.prems(1) False Suc.prems(2), of v1 v2 v3 v4 "(0, 0, 0, 0)"] ih p
      by (simp add: case_prod_beta)
  qed
qed

lemma oq_contents_push:
  assumes "oq_inv rs q" and "oqnext rs (oqhead q) \<noteq> oqtail q"
  shows "oq_contents rs (snd (oqpush rs q v1 v2 v3 v4)) = oq_contents rs q @ [(v1, v2, v3, v4)]"
  unfolding oq_contents_def OQENTRYSZ_def
  using assms oq_count_less [OF assms(1)] by (rule oq_drain_push)

lemma oq_drain_length:
  assumes "oq_inv rs q" and "oq_count rs q \<le> n"
  shows "length (oq_drain rs n q) = oq_count rs q"
  using assms
proof (induction n arbitrary: q)
  case 0
  then show ?case by simp
next
  case (Suc n)
  show ?case
  proof (cases "oqhead q = oqtail q")
    case True
    then show ?thesis
      using oq_drain_empty [OF True, of rs "Suc n"] oq_count_empty [OF Suc.prems(1)] by simp
  next
    case False
    let ?q1 = "snd (snd (oqpop rs q (0, 0, 0, 0)))"
    have i1: "oq_inv rs ?q1" using Suc.prems(1) by (rule oqpop_inv)
    have c: "Suc (oq_count rs ?q1) = oq_count rs q"
      using Suc.prems(1) False by (rule oq_count_pop)
    then have "oq_count rs ?q1 \<le> n" using Suc.prems(2) by simp
    with i1 have "length (oq_drain rs n ?q1) = oq_count rs ?q1" by (rule Suc.IH)
    moreover have "fst (oqpop rs q (0, 0, 0, 0)) = 1" using False by (simp add: oqpop_def oqempty_def)
    ultimately show ?thesis using c by (simp add: case_prod_beta)
  qed
qed

lemma oq_contents_length:
  assumes "oq_inv rs q"
  shows "length (oq_contents rs q) = oq_count rs q"
  unfolding oq_contents_def OQENTRYSZ_def
  using assms oq_count_less [OF assms] by (intro oq_drain_length) simp_all


lemma oqpush_full:
  assumes "oq_inv rs q" and "oq_count rs q = OQSZ rs div 4 - 1"
  shows "oqpush rs q v1 v2 v3 v4 = (0, q)"
  using assms oq_count_full [OF assms(1)] by (simp add: oqpush_def Let_def)

lemma oqpush_all_full:
  assumes "oq_inv rs q" and "oq_count rs q = OQSZ rs div 4 - 1"
  shows "oqpush_all rs q es = (replicate (length es) 0, q)"
proof (induction es)
  case Nil
  then show ?case by simp
next
  case (Cons e es)
  obtain v1 v2 v3 v4 where e: "e = (v1, v2, v3, v4)" by (cases e) auto
  show ?case using Cons oqpush_full [OF assms] by (simp add: e)
qed

lemma oqpush_all_general:
  assumes "oq_inv rs q"
  shows "fst (oqpush_all rs q es) =
           replicate (min (length es) (OQSZ rs div 4 - 1 - oq_count rs q)) 1 @
           replicate (length es - (OQSZ rs div 4 - 1 - oq_count rs q)) 0 \<and>
         oq_contents rs (snd (oqpush_all rs q es)) =
           oq_contents rs q @ take (OQSZ rs div 4 - 1 - oq_count rs q) es \<and>
         oq_inv rs (snd (oqpush_all rs q es))"
  using assms
proof (induction es arbitrary: q)
  case Nil
  then show ?case by simp
next
  case (Cons e es)
  obtain v1 v2 v3 v4 where e: "e = (v1, v2, v3, v4)" by (cases e) auto
  show ?case
  proof (cases "oq_count rs q = OQSZ rs div 4 - 1")
    case True
    then show ?thesis
      using oqpush_all_full [OF Cons.prems True, of "e # es"] Cons.prems by simp
  next
    case False
    then have nf: "oqnext rs (oqhead q) \<noteq> oqtail q"
      using oq_count_full [OF Cons.prems] by simp
    let ?q1 = "snd (oqpush rs q v1 v2 v3 v4)"
    have i1: "oq_inv rs ?q1" using Cons.prems by (rule oqpush_inv)
    have c1: "oq_count rs ?q1 = Suc (oq_count rs q)" using Cons.prems nf by (rule oq_count_push)
    have k1: "oq_contents rs ?q1 = oq_contents rs q @ [(v1, v2, v3, v4)]"
      using Cons.prems nf by (rule oq_contents_push)
    have r1: "fst (oqpush rs q v1 v2 v3 v4) = 1" using nf by (simp add: oqpush_def Let_def)
    have lt: "oq_count rs q < OQSZ rs div 4 - 1"
      using False oq_count_less [OF Cons.prems] by simp
    then obtain d where d: "OQSZ rs div 4 - 1 - oq_count rs q = Suc d"
      by (cases "OQSZ rs div 4 - 1 - oq_count rs q") auto
    then have d1: "OQSZ rs div 4 - 1 - Suc (oq_count rs q) = d" by simp
    note ih = Cons.IH [OF i1, unfolded c1 k1 d1]
    from d have d': "OQSZ rs div 4 - Suc (oq_count rs q) = Suc d" by simp
    show ?thesis
      using ih r1 by (simp add: e d' case_prod_beta)
  qed
qed

lemma OQSZ_2560: "OQSZ 2560 = 2048"
  by (simp add: OQSZ_def OQENTRYSZ_def)

text \<open>
  C4. Pushing capacity + 1 entries into an empty output queue (wherever in the array its
  cursors stand, so the head may wrap at the end of the array on the way): every push
  but the last returns 1, the last returns 0, and the contents of the queue afterwards
  are the first capacity entries in the order they were pushed. The capacity is
  \<^verbatim>\<open>OQSZ / OQENTRYSZ - 1\<close>.
\<close>

theorem oq_overfill:
  assumes "oq_inv rs q" and "oqhead q = oqtail q"
    and "length es = Suc (OQSZ rs div OQENTRYSZ - 1)"
  shows "fst (oqpush_all rs q es) = replicate (OQSZ rs div OQENTRYSZ - 1) 1 @ [0] \<and>
         oq_contents rs (snd (oqpush_all rs q es)) = take (OQSZ rs div OQENTRYSZ - 1) es"
proof -
  have c: "oq_count rs q = 0" using assms(2) oq_count_empty [OF assms(1)] by simp
  have k: "oq_contents rs q = []"
    using oq_contents_length [OF assms(1)] c by simp
  show ?thesis
    using oqpush_all_general [OF assms(1), of es] assms(3) c k
    by (simp add: OQENTRYSZ_def)
qed

text \<open>
  C10. \<^verbatim>\<open>oqpush\<close> returns 0 exactly when the queue holds \<^verbatim>\<open>OQSZ / OQENTRYSZ - 1\<close>
  entries; from the queue of program start and with no pop in between, the first
  \<^verbatim>\<open>OQSZ / OQENTRYSZ - 1\<close> pushes return 1 and every later one returns 0. One slot of
  the array is never used.
\<close>

theorem oq_capacity:
  assumes "oq_inv rs q"
  shows "(fst (oqpush rs q v1 v2 v3 v4) = 0 \<longleftrightarrow>
            length (oq_contents rs q) = OQSZ rs div OQENTRYSZ - 1) \<and>
         fst (oqpush_all rs (oq_init rs) es) =
           replicate (min (length es) (OQSZ rs div OQENTRYSZ - 1)) 1 @
           replicate (length es - (OQSZ rs div OQENTRYSZ - 1)) 0"
proof -
  have pos: "0 < OQSZ rs" using assms by (auto simp: oq_inv_def)
  then have i0: "oq_inv rs (oq_init rs)" by (rule oq_init_inv)
  have c0: "oq_count rs (oq_init rs) = 0"
    using oq_count_empty [OF i0] by (simp add: oq_init_def)
  have "fst (oqpush rs q v1 v2 v3 v4) = 0 \<longleftrightarrow> oqnext rs (oqhead q) = oqtail q"
    by (simp add: oqpush_def Let_def)
  then show ?thesis
    using oq_count_full [OF assms] oq_contents_length [OF assms]
      oqpush_all_general [OF i0, of es] c0
    by (simp add: OQENTRYSZ_def)
qed

text \<open>
  C9. The invariant \<open>oq_inv\<close> (both cursors are offsets of entries inside
  \<^verbatim>\<open>oqueue\<close>: multiples of 4 below \<^verbatim>\<open>OQSZ\<close>) is kept by \<^verbatim>\<open>oqpush\<close> and by
  \<^verbatim>\<open>oqpop\<close>, and under it the bytes at offsets 0 to 3 from \<^verbatim>\<open>oqhead\<close> and from
  \<^verbatim>\<open>oqtail\<close> lie inside the array. The queue of program start satisfies it.
\<close>

theorem oq_cursors_in_bounds:
  assumes "oq_inv rs q"
  shows "oq_inv rs (snd (oqpush rs q v1 v2 v3 v4)) \<and>
         oq_inv rs (snd (snd (oqpop rs q cells))) \<and>
         oqhead q + 3 < length (oqueue q) \<and> oqtail q + 3 < length (oqueue q) \<and>
         oq_inv rs (oq_init rs)"
proof -
  have "0 < OQSZ rs" using assms by (auto simp: oq_inv_def)
  then have s: "oq_inv rs (oq_init rs)" by (rule oq_init_inv)
  from assms have f: "oqhead q < OQSZ rs" "oqhead q mod 4 = 0" "oqtail q < OQSZ rs"
    "oqtail q mod 4 = 0" "length (oqueue q) = OQSZ rs"
    by (simp_all add: oq_inv_def OQENTRYSZ_def)
  show ?thesis
    using oqpush_inv [OF assms] oqpop_inv [OF assms]
      entry_in_bounds [OF f(1,2)] entry_in_bounds [OF f(3,4)] f(5) s
    by simp
qed

theorem oq_cursors_in_bounds_witness:
  "oq_inv 2560 q_full \<and>
   oq_inv 2560 (snd (oqpush 2560 q_full 1 2 3 4)) \<and>
   oq_inv 2560 (snd (snd (oqpop 2560 q_full (0, 0, 0, 0)))) \<and>
   oqhead q_full + 3 < length (oqueue q_full) \<and> oqtail q_full + 3 < length (oqueue q_full) \<and>
   oq_inv 2560 (oq_init 2560)"
proof -
  have i: "oq_inv 2560 q_full"
    by (simp add: oq_inv_def q_full_def OQSZ_2560 OQENTRYSZ_def)
  show ?thesis using i oq_cursors_in_bounds [OF i] by simp
qed

theorem oq_overfill_witness:
  "oq_inv 2560 q_mid \<and> oqhead q_mid = oqtail q_mid \<and>
   length (replicate 511 (1, 2, 3, 4) @ [(5, 6, 7, 8 :: u8)]) = Suc (OQSZ 2560 div OQENTRYSZ - 1) \<and>
   fst (oqpush_all 2560 q_mid (replicate 511 (1, 2, 3, 4) @ [(5, 6, 7, 8)]))
     = replicate 511 1 @ [0] \<and>
   oq_contents 2560 (snd (oqpush_all 2560 q_mid (replicate 511 (1, 2, 3, 4) @ [(5, 6, 7, 8)])))
     = replicate 511 (1, 2, 3, 4)"
proof -
  have i: "oq_inv 2560 q_mid"
    by (simp add: oq_inv_def q_mid_def OQSZ_2560 OQENTRYSZ_def)
  have e: "oqhead q_mid = oqtail q_mid" by (simp add: q_mid_def)
  have l: "length (replicate 511 (1, 2, 3, 4) @ [(5, 6, 7, 8 :: u8)]) = Suc (OQSZ 2560 div OQENTRYSZ - 1)"
    by (simp add: OQSZ_2560 OQENTRYSZ_def)
  show ?thesis using i e l oq_overfill [OF i e l]
    by (simp add: OQSZ_2560 OQENTRYSZ_def)
qed

theorem oq_capacity_witness:
  "oq_inv 2560 q_full \<and> fst (oqpush 2560 q_full 1 2 3 4) = 0 \<and>
   length (oq_contents 2560 q_full) = 511 \<and>
   fst (oqpush_all 2560 (oq_init 2560) (replicate 600 (1, 2, 3, 4))) =
     replicate 511 1 @ replicate 89 0"
proof -
  have i: "oq_inv 2560 q_full"
    by (simp add: oq_inv_def q_full_def OQSZ_2560 OQENTRYSZ_def)
  have f: "fst (oqpush 2560 q_full 1 2 3 4) = 0"
    by (simp add: oqpush_def oqnext_def q_full_def OQSZ_2560 OQENTRYSZ_def)
  show ?thesis
    using i f oq_capacity [OF i, of 1 2 3 4 "replicate 600 (1, 2, 3, 4)"]
    by (simp add: OQSZ_2560 OQENTRYSZ_def)
qed

text \<open>
  C5. On a full queue \<^verbatim>\<open>oqpush\<close> returns 0 and the queue (array, head, tail) is the one
  it was given; on an empty queue \<^verbatim>\<open>oqpop\<close> returns 0, not the 1 of a successful pop,
  and changes neither the queue nor the cells behind its four pointers.
\<close>

theorem oq_full_push_empty_pop_clean:
  assumes "oqnext rs (oqhead qf) = oqtail qf" and "oqhead qe = oqtail qe"
    and "oqhead qn \<noteq> oqtail qn"
  shows "oqpush rs qf v1 v2 v3 v4 = (0, qf) \<and> oqpop rs qe cells = (0, cells, qe) \<and>
         fst (oqpop rs qn cells) = 1"
  using assms by (simp add: oqpush_def oqpop_def oqempty_def Let_def)

theorem oq_full_push_empty_pop_clean_witness:
  "oqnext 2560 (oqhead q_full) = oqtail q_full \<and>
   oqhead (oq_init 2560) = oqtail (oq_init 2560) \<and> oqhead q_full \<noteq> oqtail q_full \<and>
   oqpush 2560 q_full 1 2 3 4 = (0, q_full) \<and>
   oqpop 2560 (oq_init 2560) (9, 9, 9, 9) = (0, (9, 9, 9, 9), oq_init 2560) \<and>
   fst (oqpop 2560 q_full (9, 9, 9, 9)) = 1"
proof -
  have f: "oqnext 2560 (oqhead q_full) = oqtail q_full"
    by (simp add: oqnext_def q_full_def OQSZ_2560 OQENTRYSZ_def)
  have e: "oqhead (oq_init 2560) = oqtail (oq_init 2560)" by (simp add: oq_init_def)
  have n: "oqhead q_full \<noteq> oqtail q_full" by (simp add: q_full_def)
  show ?thesis
    using f e n oq_full_push_empty_pop_clean [OF f e n, of 1 2 3 4 "(9, 9, 9, 9)"] by simp
qed
section \<open>The capture routines\<close>

lemma u8_slot:
  fixes r :: u8
  assumes "unat r mod 4 = 0"
  shows "unat (r + 1) = unat r + 1" "unat (r + 2) = unat r + 2" "unat (r + 3) = unat r + 3"
    "r \<noteq> 255" "r + 1 \<noteq> 255" "r + 2 \<noteq> 255"
proof -
  have b: "unat r < 256" using unsigned_less [of r, where ?'a = nat] by simp
  with assms have le: "unat r \<le> 252" by presburger
  then show 1: "unat (r + 1) = unat r + 1" and 2: "unat (r + 2) = unat r + 2"
    and 3: "unat (r + 3) = unat r + 3"
    by (simp_all add: unat_word_ariths)
  have u: "unat (255 :: u8) = 255" by simp
  show "r \<noteq> 255" using le u by auto
  show "r + 1 \<noteq> 255" using 1 le u by auto
  show "r + 2 \<noteq> 255" using 2 le u by auto
qed

lemma st_xinc:
  assumes "regs c R27 = 1" and "regs c R26 \<noteq> 255"
  shows "exec io (ST_Xinc r) c =
    ([Store (256 + unat (regs c R26)) (regs c r)],
     c\<lparr>regs := (regs c)(R26 := regs c R26 + 1),
       ram := (ram c)(256 + unat (regs c R26) := regs c r)\<rparr>)"
  using assms by (auto simp: X_addr_def X_inc_def fun_upd_idem intro!: cpu.equality ext)

lemma capture_isr_run:
  assumes p: "regs c R27 = IQPAGE" and a: "unat (regs c R26) mod 4 = 0"
    and f: "capflag = R1 \<or> capflag = R6"
  shows "run io (CAPTURE_ISR_body capflag) c =
    ([FlagClear (regs c R6), PortRead (pin_in io), TimerLoRead (tcnt1l_in io),
      TimerHiRead (tcnt1h_in io),
      Store (256 + unat (regs c R26)) (tcnt1l_in io),
      Store (256 + unat (regs c R26) + 1) (tcnt1h_in io),
      Store (256 + unat (regs c R26) + 2) (pin_in io),
      Store (256 + unat (regs c R26) + 3) (regs c capflag), Return],
     c\<lparr>regs := (regs c)(R3 := pin_in io, R4 := tcnt1l_in io, R5 := tcnt1h_in io,
                         R26 := regs c R26 + 4),
       ram := (ram c)(256 + unat (regs c R26) := tcnt1l_in io,
                      256 + unat (regs c R26) + 1 := tcnt1h_in io,
                      256 + unat (regs c R26) + 2 := pin_in io,
                      256 + unat (regs c R26) + 3 := regs c capflag)\<rparr>)"
proof -
  note s = u8_slot [OF a]
  define c1 where "c1 = c\<lparr>regs := (regs c)(R3 := pin_in io, R4 := tcnt1l_in io, R5 := tcnt1h_in io)\<rparr>"
  define c2 where "c2 = c1\<lparr>regs := (regs c1)(R26 := regs c R26 + 1),
       ram := (ram c)(256 + unat (regs c R26) := tcnt1l_in io)\<rparr>"
  define c3 where "c3 = c2\<lparr>regs := (regs c2)(R26 := regs c R26 + 2),
       ram := (ram c2)(256 + unat (regs c R26) + 1 := tcnt1h_in io)\<rparr>"
  define c4 where "c4 = c3\<lparr>regs := (regs c3)(R26 := regs c R26 + 3),
       ram := (ram c3)(256 + unat (regs c R26) + 2 := pin_in io)\<rparr>"
  define c5 where "c5 = c4\<lparr>regs := (regs c4)(R26 := regs c R26 + 4),
       ram := (ram c4)(256 + unat (regs c R26) + 3 := regs c capflag)\<rparr>"
  have e1: "run io [OUT_flag R6, IN_pin R3, LDS_tcnt1l R4, LDS_tcnt1h R5] c =
    ([FlagClear (regs c R6), PortRead (pin_in io), TimerLoRead (tcnt1l_in io),
      TimerHiRead (tcnt1h_in io)], c1)"
    by (simp add: c1_def)
  have e2: "exec io (ST_Xinc R4) c1 = ([Store (256 + unat (regs c R26)) (tcnt1l_in io)], c2)"
    using p s(4) by (subst st_xinc) (simp_all add: c1_def c2_def IQPAGE_def)
  have e3: "exec io (ST_Xinc R5) c2 = ([Store (256 + unat (regs c R26) + 1) (tcnt1h_in io)], c3)"
    using p s(5) s(1) by (subst st_xinc) (simp_all add: c1_def c2_def c3_def IQPAGE_def add.commute)
  have e4: "exec io (ST_Xinc R3) c3 = ([Store (256 + unat (regs c R26) + 2) (pin_in io)], c4)"
    using p s(6) s(2) by (subst st_xinc) (simp_all add: c1_def c2_def c3_def c4_def IQPAGE_def add.commute)
  have e5: "run io [ST_Xinc capflag, LDI R27 IQPAGE, RETI] c4 =
     ([Store (256 + unat (regs c R26) + 3) (regs c capflag), Return], c5)"
    using p f s(3)
    by (auto simp: c1_def c2_def c3_def c4_def c5_def IQPAGE_def X_addr_def X_inc_def
        add.commute intro!: cpu.equality ext)
  have r: "run io (xs @ ys) c = (case run io xs c of (ev, c') \<Rightarrow>
      (case run io ys c' of (evs, c'') \<Rightarrow> (ev @ evs, c'')))" for xs ys c
    by (induction xs arbitrary: c) (simp_all add: case_prod_beta)
  have split: "CAPTURE_ISR_body capflag =
     [OUT_flag R6, IN_pin R3, LDS_tcnt1l R4, LDS_tcnt1h R5] @
     ([ST_Xinc R4] @ ([ST_Xinc R5] @ ([ST_Xinc R3] @ [ST_Xinc capflag, LDI R27 IQPAGE, RETI])))"
    by (simp add: CAPTURE_ISR_body_def)
  have fin: "c5 = c\<lparr>regs := (regs c)(R3 := pin_in io, R4 := tcnt1l_in io, R5 := tcnt1h_in io,
                         R26 := regs c R26 + 4),
       ram := (ram c)(256 + unat (regs c R26) := tcnt1l_in io,
                      256 + unat (regs c R26) + 1 := tcnt1h_in io,
                      256 + unat (regs c R26) + 2 := pin_in io,
                      256 + unat (regs c R26) + 3 := regs c capflag)\<rparr>"
    by (simp add: c1_def c2_def c3_def c4_def c5_def)
  have one: "run io [i] c = exec io i c" for i c by (simp add: case_prod_beta)
  show ?thesis
    by (simp only: split r one e1 e2 e3 e4 e5 prod.case) (simp add: fin)
qed
text \<open>
  C7. An invocation of either routine, entered with the registers as \<^verbatim>\<open>main\<close> sets them
  up (r27 the queue page, r26 the offset of an entry, r6 the flag mask, r1 zero), has
  exactly this sequence of effects: one write of the mask to the interrupt flag register,
  the read of the port, of the timer's low byte, of its high byte, then the four stores of
  timer low, timer high, port and kind at the write cursor; the kind is 0 for the timer
  overflow and the nonzero mask for an edge. It leaves the cursor four bytes further on,
  wrapping within the page.
\<close>

theorem capture_routine_order:
  assumes "regs c R27 = IQPAGE" and "unat (regs c R26) mod 4 = 0"
    and "regs c R1 = 0" and "regs c R6 = INTERRUPT_FLAG_CLEAR cp"
  shows "run io (isr v) c =
    ([FlagClear (INTERRUPT_FLAG_CLEAR cp), PortRead (pin_in io), TimerLoRead (tcnt1l_in io),
      TimerHiRead (tcnt1h_in io),
      Store (256 + unat (regs c R26)) (tcnt1l_in io),
      Store (256 + unat (regs c R26) + 1) (tcnt1h_in io),
      Store (256 + unat (regs c R26) + 2) (pin_in io),
      Store (256 + unat (regs c R26) + 3)
        (case v of TIMER1_OVF \<Rightarrow> 0 | EDGE \<Rightarrow> INTERRUPT_FLAG_CLEAR cp),
      Return],
     c\<lparr>regs := (regs c)(R3 := pin_in io, R4 := tcnt1l_in io, R5 := tcnt1h_in io,
                         R26 := regs c R26 + 4),
       ram := (ram c)(256 + unat (regs c R26) := tcnt1l_in io,
                      256 + unat (regs c R26) + 1 := tcnt1h_in io,
                      256 + unat (regs c R26) + 2 := pin_in io,
                      256 + unat (regs c R26) + 3 :=
                        (case v of TIMER1_OVF \<Rightarrow> 0 | EDGE \<Rightarrow> INTERRUPT_FLAG_CLEAR cp))\<rparr>) \<and>
    INTERRUPT_FLAG_CLEAR cp \<noteq> 0"
proof -
  have nz: "INTERRUPT_FLAG_CLEAR cp \<noteq> 0"
    by (cases cp) (simp_all add: INTERRUPT_FLAG_CLEAR_def)
  show ?thesis
  proof (cases v)
    case TIMER1_OVF
    then show ?thesis
      using capture_isr_run [OF assms(1,2), of R1 io] assms(3,4) nz
      by (simp add: isr_def TIMER_ISR_def)
  next
    case EDGE
    then show ?thesis
      using capture_isr_run [OF assms(1,2), of R6 io] assms(3,4) nz
      by (simp add: isr_def CAPTURE_ISR_def)
  qed
qed

theorem capture_routine_order_witness:
  "regs cpu_start R27 = IQPAGE \<and> unat (regs cpu_start R26) mod 4 = 0 \<and>
   regs cpu_start R1 = 0 \<and> regs cpu_start R6 = INTERRUPT_FLAG_CLEAR PortD \<and>
   fst (run io_3A01F0 (isr EDGE) cpu_start) =
     [FlagClear 0x0F, PortRead 0xF0, TimerLoRead 0x3A, TimerHiRead 0x01,
      Store 256 0x3A, Store 257 0x01, Store 258 0xF0, Store 259 0x0F, Return] \<and>
   fst (run io_3A01F0 (isr TIMER1_OVF) cpu_start) =
     [FlagClear 0x0F, PortRead 0xF0, TimerLoRead 0x3A, TimerHiRead 0x01,
      Store 256 0x3A, Store 257 0x01, Store 258 0xF0, Store 259 0, Return] \<and>
   regs (snd (run io_3A01F0 (isr EDGE) cpu_start)) R26 = 4 \<and>
   regs (snd (run io_3A01F0 (isr EDGE) cpu_start)) R27 = IQPAGE"
proof -
  have h: "regs cpu_start R27 = IQPAGE" "unat (regs cpu_start R26) mod 4 = 0"
    "regs cpu_start R1 = 0" "regs cpu_start R6 = INTERRUPT_FLAG_CLEAR PortD"
    by (simp_all add: cpu_start_def main_start_def)
  have z: "regs cpu_start R26 = 0" by (simp add: cpu_start_def main_start_def)
  show ?thesis
    using h capture_routine_order [OF h, of io_3A01F0 EDGE]
      capture_routine_order [OF h, of io_3A01F0 TIMER1_OVF]
    by (simp add: z io_3A01F0_def INTERRUPT_FLAG_CLEAR_def)
qed

section \<open>The formatter\<close>

lemma buf9:
  assumes "length b = 16"
  shows "b[0 := a0, 1 := a1, 2 := a2, 3 := a3, 4 := a4, 5 := a5, 6 := a6, 7 := a7, 8 := a8]
    = [a0, a1, a2, a3, a4, a5, a6, a7, a8] @ drop 9 b"
proof -
  from assms obtain x0 x1 x2 x3 x4 x5 x6 x7 x8 r where "b = [x0, x1, x2, x3, x4, x5, x6, x7, x8] @ r"
    by (auto simp: eval_nat_numeral length_Suc_conv)
  then show ?thesis by simp
qed

lemma hex_digit:
  assumes "v < 16"
  shows "hex v = of_char (''0123456789ABCDEF'' ! unat v)"
proof -
  from assms have "unat v < 16" by (simp add: word_less_nat_alt)
  then have "unat v \<in> {0,1,2,3,4,5,6,7,8,9,10,11,12,13,14,15}" by auto arith
  then have "v \<in> {0,1,2,3,4,5,6,7,8,9,10,11,12,13,14,15}"
    by (auto simp: word_unat_eq_iff)
  then show ?thesis by (auto simp: hex_def)
qed

lemma format_entry_step:
  assumes "length b = 16" and "m < 10" and "r = of_nat (10 - m)"
  shows "format_entry (b, r) (tlo, thi, pv, tf) =
    ([hex (drop_bit 4 thi), hex (thi AND 0x0F), hex (drop_bit 4 tlo), hex (tlo AND 0x0F),
      hex (drop_bit 4 pv), hex (pv AND 0x0F), hex (tf AND 0x01),
      if m = 9 then 0x0A else of_char CHR '' '', 0] @ drop 9 b,
     of_nat (10 - Suc m mod 10))"
proof -
  from assms(2) have "m \<in> {0,1,2,3,4,5,6,7,8,9}" by auto
  then show ?thesis
    using buf9 [OF assms(1)] assms(3)
    by (auto simp: format_entry_def items_per_line_def Let_def)
qed

lemma nibble_bounds:
  fixes x :: u8
  shows "drop_bit 4 x < 16" and "x AND 0x0F < 16" and "x AND 0x01 = 0 \<or> x AND 0x01 = 1"
proof -
  have "unat x < 256" using unsigned_less [of x, where ?'a = nat] by simp
  then have "unat (drop_bit 4 x) < 16" by (simp add: drop_bit_eq_div unat_div_distrib)
  then show "drop_bit 4 x < 16" by (simp add: word_less_nat_alt)
  have m: "x AND 0x0F = take_bit 4 x" by (simp add: take_bit_eq_mask mask_eq_exp_minus_1)
  have "unat (x AND 0x0F) < 16" unfolding m by (simp add: take_bit_eq_mod unat_mod_distrib)
  then show "x AND 0x0F < 16" by (simp add: word_less_nat_alt)
  have m1: "x AND 1 = take_bit 1 x" by (simp add: take_bit_eq_mask mask_eq_exp_minus_1)
  have "unat (x AND 1) < 2" unfolding m1 by (simp add: take_bit_eq_mod unat_mod_distrib)
  then have "unat (x AND 1) = 0 \<or> unat (x AND 1) = 1" by arith
  then show "x AND 0x01 = 0 \<or> x AND 0x01 = 1" by (simp add: word_unat_eq_iff)
qed

lemma hex_nibbles:
  "hex (drop_bit 4 x) = of_char (''0123456789ABCDEF'' ! unat (drop_bit 4 x))"
  "hex (x AND 0x0F) = of_char (''0123456789ABCDEF'' ! unat (x AND 0x0F))"
  "hex (x AND 0x01) = of_char (''01'' ! unat (x AND 0x01))"
proof -
  show "hex (drop_bit 4 x) = of_char (''0123456789ABCDEF'' ! unat (drop_bit 4 x))"
    using nibble_bounds(1) by (rule hex_digit)
  show "hex (x AND 0x0F) = of_char (''0123456789ABCDEF'' ! unat (x AND 0x0F))"
    using nibble_bounds(2) by (rule hex_digit)
  show "hex (x AND 0x01) = of_char (''01'' ! unat (x AND 0x01))"
    using nibble_bounds(3) [of x] by (auto simp: hex_def)
qed

lemma oqpop_after_push:
  assumes i: "oq_inv rs q" and e: "oqhead q = oqtail q"
    and nf: "oqnext rs (oqhead q) \<noteq> oqtail q"
  shows "oqpop rs (snd (oqpush rs q v1 v2 v3 v4)) cells =
    (1, (v1, v2, v3, v4), (snd (oqpush rs q v1 v2 v3 v4))\<lparr>oqtail := oqnext rs (oqtail q)\<rparr>)"
proof -
  from i have f: "oqhead q < OQSZ rs" "oqhead q mod 4 = 0" "length (oqueue q) = OQSZ rs"
    by (simp_all add: oq_inv_def OQENTRYSZ_def)
  have b: "oqhead q + 3 < length (oqueue q)" using entry_in_bounds [OF f(1,2)] f(3) by simp
  show ?thesis
    using nf e b by (simp add: oqpush_def oqpop_def oqempty_def Let_def)
qed

lemma format_entry_take7:
  assumes "length b = 16"
  shows "take 7 (fst (format_entry (b, r) (tlo, thi, pv, tf))) =
    [hex (drop_bit 4 thi), hex (thi AND 0x0F), hex (drop_bit 4 tlo), hex (tlo AND 0x0F),
     hex (drop_bit 4 pv), hex (pv AND 0x0F), hex (tf AND 0x01)]"
    and "fst (format_entry (b, r) (tlo, thi, pv, tf)) ! 7 =
      (if r - 1 \<noteq> 0 then of_char CHR '' '' else 0x0A)"
    and "fst (format_entry (b, r) (tlo, thi, pv, tf)) ! 8 = 0"
  using buf9 [OF assms] by (simp_all add: format_entry_def Let_def)

lemma dispatcher_dequeue:
  assumes "regs (mcu st) R26 \<noteq> iqtail st"
    and "iq_entry (mcu st) (iqtail st) = (tlo, thi, pv, kind)"
  shows "dispatcher rs st =
    (let tf = (if kind = 0 then 1 else 0);
         st1 = st\<lparr>iqtail := iqtail st + IQENTRYSZ, prev_pv := pv,
                  dequeued := dequeued st @ [(tlo, thi, pv, kind)]\<rparr>;
         st2 = st1\<lparr>oqs := snd (oqpush rs (oqs st) tlo thi pv tf),
                   oqlog := oqlog st @ [((tlo, thi, pv, tf), fst (oqpush rs (oqs st) tlo thi pv tf))]\<rparr>
     in if kind = 0 then
          (if allow_timer_events st \<noteq> 0
           then st2\<lparr>allow_timer_events := allow_timer_events st - 1\<rparr> else st1)
        else st2\<lparr>allow_timer_events := max_timer_events\<rparr>)"
  using assms by (simp add: dispatcher_def iq_entry_def Let_def case_prod_beta)

lemma replicate_16: "replicate 16 x = [x, x, x, x, x, x, x, x, x, x, x, x, x, x, x, x]"
  by (simp add: numeral_eq_Suc)

section \<open>The main loop\<close>

lemma fold_interrupt_frame:
  "iqtail (fold interrupt is st) = iqtail st"
  "prev_pv (fold interrupt is st) = prev_pv st"
  "allow_timer_events (fold interrupt is st) = allow_timer_events st"
  "oqs (fold interrupt is st) = oqs st"
  "obuf (fold interrupt is st) = obuf st"
  "obuf_idx (fold interrupt is st) = obuf_idx st"
  "remaining (fold interrupt is st) = remaining st"
  "usb_tx (fold interrupt is st) = usb_tx st"
  "dequeued (fold interrupt is st) = dequeued st"
  "oqlog (fold interrupt is st) = oqlog st"
  "popped (fold interrupt is st) = popped st"
  by (induction "is" arbitrary: st; simp add: interrupt_def)+

lemma dispatcher_frame:
  "mcu (dispatcher rs st) = mcu st"
  "obuf (dispatcher rs st) = obuf st"
  "obuf_idx (dispatcher rs st) = obuf_idx st"
  "remaining (dispatcher rs st) = remaining st"
  "usb_tx (dispatcher rs st) = usb_tx st"
  "popped (dispatcher rs st) = popped st"
  by (simp_all add: dispatcher_def Let_def case_prod_beta)

lemma formatter_frame:
  "mcu (formatter rs st) = mcu st"
  "iqtail (formatter rs st) = iqtail st"
  "allow_timer_events (formatter rs st) = allow_timer_events st"
  "usb_tx (formatter rs st) = usb_tx st"
  "dequeued (formatter rs st) = dequeued st"
  "oqlog (formatter rs st) = oqlog st"
  by (simp_all add: formatter_def case_prod_beta)

lemma transmitter_frame:
  "mcu (transmitter r st) = mcu st"
  "iqtail (transmitter r st) = iqtail st"
  "allow_timer_events (transmitter r st) = allow_timer_events st"
  "oqs (transmitter r st) = oqs st"
  "obuf (transmitter r st) = obuf st"
  "remaining (transmitter r st) = remaining st"
  "dequeued (transmitter r st) = dequeued st"
  "oqlog (transmitter r st) = oqlog st"
  "popped (transmitter r st) = popped st"
  by (simp_all add: transmitter_def)

lemma hex_in_text:
  assumes "v < 16"
  shows "hex v \<in> text_chars"
proof -
  from assms have "unat v < 16" by (simp add: word_less_nat_alt)
  then have "unat v \<in> {0,1,2,3,4,5,6,7,8,9,10,11,12,13,14,15}" by auto arith
  then have "v \<in> {0,1,2,3,4,5,6,7,8,9,10,11,12,13,14,15}"
    by (auto simp: word_unat_eq_iff)
  then show ?thesis by (auto simp: hex_def text_chars_def)
qed

lemma hex_text:
  "hex (drop_bit 4 x) \<in> text_chars" "hex (x AND 0x0F) \<in> text_chars" "hex (x AND 0x01) \<in> text_chars"
proof -
  show "hex (drop_bit 4 x) \<in> text_chars" using nibble_bounds(1) by (rule hex_in_text)
  show "hex (x AND 0x0F) \<in> text_chars" using nibble_bounds(2) by (rule hex_in_text)
  show "hex (x AND 0x01) \<in> text_chars"
    using nibble_bounds(3) [of x] by (auto simp: hex_def text_chars_def)
qed

lemma format_entry_text:
  assumes "length b = 16" and "set b \<subseteq> insert 0 text_chars"
  shows "length (fst (format_entry (b, r) e)) = 16"
    and "fst (format_entry (b, r) e) ! 8 = 0"
    and "set (fst (format_entry (b, r) e)) \<subseteq> insert 0 text_chars"
proof -
  obtain tlo thi pv tf where e: "e = (tlo, thi, pv, tf)" by (cases e) auto
  have d: "set (drop 9 b) \<subseteq> insert 0 text_chars"
    using assms(2) set_drop_subset [of 9 b] by blast
  have sp: "of_char CHR '' '' \<in> text_chars" "(0x0A :: u8) \<in> text_chars"
    by (simp_all add: text_chars_def)
  show "length (fst (format_entry (b, r) e)) = 16"
    using assms(1) by (simp add: e format_entry_def Let_def)
  show "fst (format_entry (b, r) e) ! 8 = 0"
    using format_entry_take7(3) [OF assms(1)] by (simp add: e)
  show "set (fst (format_entry (b, r) e)) \<subseteq> insert 0 text_chars"
    using buf9 [OF assms(1)] d hex_text sp
    by (auto simp: e format_entry_def Let_def)
qed

lemma tx_inv_start: "tx_inv (main_start cp rs ram0 pin0)"
  by (simp add: tx_inv_def main_start_def print_P_def banner_def)

lemma tx_inv_formatter:
  assumes "tx_inv st"
  shows "tx_inv (formatter rs st)"
proof (cases "obuf st ! unat (obuf_idx st) = 0 \<and> oqempty (oqs st) = 0")
  case False
  then show ?thesis using assms by (auto simp: formatter_def)
next
  case True
  from assms have l: "length (obuf st) = 16" and s: "set (obuf st) \<subseteq> insert 0 text_chars"
    by (simp_all add: tx_inv_def)
  obtain r e q' where p: "oqpop rs (oqs st) (0, 0, 0, 0) = (r, e, q')"
    by (cases "oqpop rs (oqs st) (0, 0, 0, 0)") auto
  have o: "obuf (formatter rs st) = fst (format_entry (obuf st, remaining st) e)"
    "obuf_idx (formatter rs st) = 0"
    using True by (simp_all add: formatter_def p case_prod_beta)
  show ?thesis
    using assms format_entry_text [OF l s, of "remaining st" e]
    by (simp add: tx_inv_def o formatter_frame)
qed

lemma tx_inv_transmitter:
  assumes "tx_inv st"
  shows "tx_inv (transmitter ready st)"
proof (cases "obuf st ! unat (obuf_idx st) \<noteq> 0 \<and> ready")
  case False
  then show ?thesis using assms by (auto simp: transmitter_def)
next
  case True
  from assms have l: "length (obuf st) = 16" and i: "unat (obuf_idx st) \<le> 8"
    and z: "obuf st ! 8 = 0" and s: "set (obuf st) \<subseteq> insert 0 text_chars"
    and t: "take 14 (usb_tx st) = banner @ [0x0A]" and d: "set (drop 14 (usb_tx st)) \<subseteq> text_chars"
    by (simp_all add: tx_inv_def)
  from True z have "unat (obuf_idx st) \<noteq> 8" by auto
  with i have i': "unat (obuf_idx st) < 8" by simp
  then have n: "unat (obuf_idx st + 1) = unat (obuf_idx st) + 1"
    by (simp add: unat_word_ariths)
  have "obuf st ! unat (obuf_idx st) \<in> set (obuf st)" using l i' by simp
  with s True have c: "obuf st ! unat (obuf_idx st) \<in> text_chars" by auto
  have len: "14 \<le> length (usb_tx st)"
  proof (rule ccontr)
    assume "\<not> 14 \<le> length (usb_tx st)"
    then have "length (take 14 (usb_tx st)) < 14" by simp
    with t show False by (simp add: banner_def)
  qed
  have u: "usb_tx (transmitter ready st) = usb_tx st @ [obuf st ! unat (obuf_idx st)]"
    "obuf_idx (transmitter ready st) = obuf_idx st + 1"
    using True by (simp_all add: transmitter_def)
  show ?thesis
    using l i' n z s t d c len by (simp add: tx_inv_def u transmitter_frame)
qed

lemma tx_inv_pass:
  assumes "tx_inv st"
  shows "tx_inv (main_pass rs env st)"
proof -
  have "tx_inv (dispatcher rs (fold interrupt (fst env) st))"
    using assms by (simp add: tx_inv_def dispatcher_frame fold_interrupt_frame)
  then show ?thesis
    unfolding main_pass_def by (intro tx_inv_transmitter tx_inv_formatter)
qed

lemma tx_inv_loop:
  assumes "tx_inv st"
  shows "tx_inv (main_loop rs envs st)"
  using assms by (induction envs arbitrary: st) (simp_all add: tx_inv_pass)


lemma filter_upt_single:
  assumes "P 0" and "\<And>i. 0 < i \<Longrightarrow> i < n \<Longrightarrow> \<not> P i" and "0 < n"
  shows "filter P [0..<n] = [0]"
proof -
  have "[0..<n] = 0 # [Suc 0..<n]" using assms(3) by (simp add: upt_conv_Cons)
  moreover have "filter P [Suc 0..<n] = []" using assms(2) by (auto simp: filter_empty_conv)
  ultimately show ?thesis using assms(1) by simp
qed

lemma banner_nth: "banner ! 0 = 115" "length banner = 13"
  "0 < i \<Longrightarrow> i < 14 \<Longrightarrow> (banner @ [0x0A]) ! i \<noteq> 115"
proof -
  show "banner ! 0 = 115" "length banner = 13" by (simp_all add: banner_def)
  assume "0 < i" "i < 14"
  then have "i \<in> {1,2,3,4,5,6,7,8,9,10,11,12,13}" by auto arith
  then show "(banner @ [0x0A]) ! i \<noteq> 115" by (auto simp: banner_def)
qed

lemma occurrences_banner:
  assumes t: "take 14 tx = banner @ [0x0A]" and d: "set (drop 14 tx) \<subseteq> text_chars"
  shows "occurrences banner tx = [0]"
  unfolding occurrences_def
proof (rule filter_upt_single)
  have "take 13 (take 14 tx) = take 13 (banner @ [0x0A])" using t by simp
  then show "take (length banner) (drop 0 tx) = banner" by (simp add: banner_nth(2))
next
  show "0 < Suc (length tx)" by simp
next
  fix i assume i: "0 < i" "i < Suc (length tx)"
  show "take (length banner) (drop i tx) \<noteq> banner"
  proof
    assume eq: "take (length banner) (drop i tx) = banner"
    then have "length (take (length banner) (drop i tx)) = 13" by (simp add: banner_nth(2))
    then have lt: "i < length tx" by (auto simp: banner_nth(2))
    have "take (length banner) (drop i tx) ! 0 = 115" using eq banner_nth(1) by simp
    then have x: "tx ! i = 115" using lt by (simp add: banner_nth(2))
    show False
    proof (cases "i < 14")
      case True
      have "take 14 tx ! i = tx ! i" using True by simp
      then show False using x banner_nth(3) [OF i(1) True] t by simp
    next
      case False
      then have "tx ! i = drop 14 tx ! (i - 14)" using lt by simp
      moreover have "i - 14 < length (drop 14 tx)" using False lt by simp
      ultimately have "tx ! i \<in> set (drop 14 tx)" by (metis nth_mem)
      with d x have "(115 :: u8) \<in> text_chars" by auto
      then show False by (simp add: text_chars_def)
    qed
  qed
qed

text \<open>
  C8. After any number of passes of the loop, with any interrupts and any answers of the
  debug channel, the transmitted text begins with the banner \<^verbatim>\<open>sctrace v1.01\<close> and its
  line break, the banner occurs at position 0 and nowhere else, and every character
  after the banner line is a hex digit, a space or a line break.
\<close>

theorem banner_once:
  "occurrences banner (usb_tx (main_loop rs envs (main_start cp rs ram0 pin0))) = [0] \<and>
   take 14 (usb_tx (main_loop rs envs (main_start cp rs ram0 pin0))) = banner @ [0x0A] \<and>
   set (drop 14 (usb_tx (main_loop rs envs (main_start cp rs ram0 pin0)))) \<subseteq> text_chars"
proof -
  have "tx_inv (main_loop rs envs (main_start cp rs ram0 pin0))"
    using tx_inv_start by (rule tx_inv_loop)
  then have t: "take 14 (usb_tx (main_loop rs envs (main_start cp rs ram0 pin0))) = banner @ [0x0A]"
    and d: "set (drop 14 (usb_tx (main_loop rs envs (main_start cp rs ram0 pin0)))) \<subseteq> text_chars"
    by (simp_all add: tx_inv_def)
  show ?thesis using occurrences_banner [OF t d] t d by simp
qed

section \<open>The dispatcher\<close>

lemma throttle_append:
  "throttle a (xs @ ys) =
     (fst (throttle a xs) @ fst (throttle (snd (throttle a xs)) ys),
      snd (throttle (snd (throttle a xs)) ys))"
  by (induction xs arbitrary: a) simp_all



lemma log_ext_trans:
  assumes "log_ext st st' xs" and "log_ext st' st'' ys"
  shows "log_ext st st'' (xs @ ys)"
  using assms by (simp add: log_ext_def throttle_append)

lemma log_ext_dispatcher:
  "\<exists>new. log_ext st (dispatcher rs st) new"
proof (cases "regs (mcu st) R26 = iqtail st")
  case True
  then have "log_ext st (dispatcher rs st) []" by (simp add: log_ext_def dispatcher_def)
  then show ?thesis ..
next
  case False
  obtain tlo thi pv kind where e: "iq_entry (mcu st) (iqtail st) = (tlo, thi, pv, kind)"
    by (cases "iq_entry (mcu st) (iqtail st)") auto
  have "log_ext st (dispatcher rs st) [(tlo, thi, pv, kind)]"
    unfolding dispatcher_dequeue [OF False e]
    by (simp add: log_ext_def forwarded_def Let_def kind_of_def oq_entry_of_def)
  then show ?thesis ..
qed

lemma log_ext_pass:
  "\<exists>new. log_ext st (main_pass rs env st) new"
proof -
  let ?s1 = "fold interrupt (fst env) st"
  obtain new where n: "log_ext ?s1 (dispatcher rs ?s1) new"
    using log_ext_dispatcher by blast
  then have "log_ext st (main_pass rs env st) new"
    by (simp add: log_ext_def forwarded_def main_pass_def fold_interrupt_frame
        formatter_frame transmitter_frame)
  then show ?thesis ..
qed

lemma log_ext_loop:
  "\<exists>new. log_ext st (main_loop rs envs st) new"
proof (induction envs arbitrary: st)
  case Nil
  have "log_ext st st []" by (simp add: log_ext_def)
  then show ?case by auto
next
  case (Cons env envs)
  obtain xs where x: "log_ext st (main_pass rs env st) xs" using log_ext_pass by blast
  obtain ys where y: "log_ext (main_pass rs env st) (main_loop rs envs (main_pass rs env st)) ys"
    using Cons by blast
  from x y have "log_ext st (main_loop rs (env # envs) st) (xs @ ys)"
    by (simp add: log_ext_trans)
  then show ?case ..
qed


lemma throttle_run_oqlog:
  "oqlog throttle_run = [((0x05, 0, 0xFF, 1), 1), ((0x05, 0, 0xFF, 1), 1),
     ((0x3A, 0x01, 0xF0, 0), 1)]"
  by (simp add: throttle_run_def throttle_run_envs_def main_start_def main_pass_def
      interrupt_def isr_def TIMER_ISR_def
      CAPTURE_ISR_def CAPTURE_ISR_body_def X_addr_def X_inc_def IQPAGE_def
      INTERRUPT_FLAG_CLEAR_def io_3A01F0_def io_tick_def ram_zero_def dispatcher_def iqueue_def
      IQENTRYSZ_def oqpush_def oqnext_def OQSZ_def OQENTRYSZ_def oq_init_def Let_def
      max_timer_events_def items_per_line_def formatter_def oqempty_def oqpop_def
      format_entry_def hex_def transmitter_def print_P_def banner_def replicate_16)

section \<open>What the output queue holds\<close>

lemma oq_drain_Suc:
  assumes "oq_inv rs q" and "oq_count rs q \<le> n"
  shows "oq_drain rs (Suc n) q = oq_drain rs n q"
  using assms
proof (induction n arbitrary: q)
  case 0
  then have "oqhead q = oqtail q" using oq_count_empty [of rs q] by simp
  then show ?case by (simp add: oq_drain_empty del: oq_drain.simps)
next
  case (Suc n)
  show ?case
  proof (cases "oqhead q = oqtail q")
    case True
    then show ?thesis by (simp add: oq_drain_empty del: oq_drain.simps)
  next
    case False
    let ?q1 = "snd (snd (oqpop rs q (0, 0, 0, 0)))"
    have i1: "oq_inv rs ?q1" using Suc.prems(1) by (rule oqpop_inv)
    have "Suc (oq_count rs ?q1) = oq_count rs q" using Suc.prems(1) False by (rule oq_count_pop)
    then have c1: "oq_count rs ?q1 \<le> n" using Suc.prems(2) by simp
    have ih: "oq_drain rs (Suc n) ?q1 = oq_drain rs n ?q1" using i1 c1 by (rule Suc.IH)
    have "oq_drain rs (Suc (Suc n)) q =
        (if fst (oqpop rs q (0, 0, 0, 0)) = 0 then []
         else fst (snd (oqpop rs q (0, 0, 0, 0))) # oq_drain rs (Suc n) ?q1)"
      by (subst oq_drain.simps) (simp add: case_prod_beta)
    also have "\<dots> = (if fst (oqpop rs q (0, 0, 0, 0)) = 0 then []
         else fst (snd (oqpop rs q (0, 0, 0, 0))) # oq_drain rs n ?q1)"
      by (simp only: ih)
    also have "\<dots> = oq_drain rs (Suc n) q"
      by (simp add: case_prod_beta)
    finally show ?thesis .
  qed
qed

lemma oq_contents_pop:
  assumes "oq_inv rs q" and "oqhead q \<noteq> oqtail q"
  shows "oq_contents rs q =
    fst (snd (oqpop rs q (0, 0, 0, 0))) # oq_contents rs (snd (snd (oqpop rs q (0, 0, 0, 0))))"
proof -
  let ?q1 = "snd (snd (oqpop rs q (0, 0, 0, 0)))"
  have i1: "oq_inv rs ?q1" using assms(1) by (rule oqpop_inv)
  have c: "Suc (oq_count rs ?q1) = oq_count rs q" using assms by (rule oq_count_pop)
  have lt: "oq_count rs q < OQSZ rs div 4" using assms(1) by (rule oq_count_less)
  then obtain n where n: "OQSZ rs div 4 = Suc n" by (cases "OQSZ rs div 4") auto
  have c1: "oq_count rs ?q1 \<le> n" using c lt n by simp
  have p: "fst (oqpop rs q (0, 0, 0, 0)) = 1" using assms(2) by (simp add: oqpop_def oqempty_def)
  have "oq_drain rs (Suc n) q = fst (snd (oqpop rs q (0, 0, 0, 0))) # oq_drain rs n ?q1"
    using p by (simp add: case_prod_beta)
  also have "oq_drain rs n ?q1 = oq_drain rs (Suc n) ?q1"
    using oq_drain_Suc [OF i1 c1] by simp
  finally show ?thesis by (simp only: oq_contents_def OQENTRYSZ_def n)
qed

lemma store_inv_start:
  assumes "0 < OQSZ rs"
  shows "store_inv rs (main_start cp rs ram0 pin0)"
proof -
  have i: "oq_inv rs (oq_init rs)" using assms by (rule oq_init_inv)
  have "oq_count rs (oq_init rs) = 0" using oq_count_empty [OF i] by (simp add: oq_init_def)
  then have "oq_contents rs (oq_init rs) = []" using oq_contents_length [OF i] by simp
  then show ?thesis using i by (simp add: store_inv_def main_start_def stored_def)
qed

lemma oqpush_result: "fst (oqpush rs q v1 v2 v3 v4) = 0 \<or> fst (oqpush rs q v1 v2 v3 v4) = 1"
  by (simp add: oqpush_def Let_def)

lemma store_inv_push:
  assumes "store_inv rs st"
  shows "store_inv rs (st\<lparr>oqs := snd (oqpush rs (oqs st) v1 v2 v3 v4),
      oqlog := oqlog st @ [((v1, v2, v3, v4), fst (oqpush rs (oqs st) v1 v2 v3 v4))]\<rparr>)"
proof (cases "oqnext rs (oqhead (oqs st)) = oqtail (oqs st)")
  case True
  then have "oqpush rs (oqs st) v1 v2 v3 v4 = (0, oqs st)" by (simp add: oqpush_def Let_def)
  then show ?thesis using assms by (simp add: store_inv_def stored_def)
next
  case False
  from assms have i: "oq_inv rs (oqs st)" by (simp add: store_inv_def)
  have r: "fst (oqpush rs (oqs st) v1 v2 v3 v4) = 1" using False by (simp add: oqpush_def Let_def)
  show ?thesis
    using assms oq_contents_push [OF i False, of v1 v2 v3 v4] oqpush_inv [OF i, of v1 v2 v3 v4]
    by (simp add: store_inv_def stored_def r)
qed

lemma store_inv_frame:
  assumes "store_inv rs st" and "oqs st' = oqs st" and "oqlog st' = oqlog st"
    and "popped st' = popped st"
  shows "store_inv rs st'"
  using assms by (simp add: store_inv_def stored_def)

lemma store_inv_dispatcher:
  assumes "store_inv rs st"
  shows "store_inv rs (dispatcher rs st)"
proof (cases "regs (mcu st) R26 = iqtail st")
  case True
  then show ?thesis using assms by (simp add: dispatcher_def)
next
  case False
  obtain tlo thi pv kind where e: "iq_entry (mcu st) (iqtail st) = (tlo, thi, pv, kind)"
    by (cases "iq_entry (mcu st) (iqtail st)") auto
  define tf :: u8 where "tf = (if kind = 0 then 1 else 0)"
  note p = store_inv_push [OF assms, of tlo thi pv tf]
  show ?thesis
    unfolding dispatcher_dequeue [OF False e] Let_def tf_def [symmetric]
    using assms p by (auto simp: store_inv_def stored_def)
qed

lemma store_inv_formatter:
  assumes "store_inv rs st"
  shows "store_inv rs (formatter rs st)"
proof (cases "obuf st ! unat (obuf_idx st) = 0 \<and> oqempty (oqs st) = 0")
  case False
  then show ?thesis using assms by (auto simp: formatter_def)
next
  case True
  from assms have i: "oq_inv rs (oqs st)" by (simp add: store_inv_def)
  from True have ne: "oqhead (oqs st) \<noteq> oqtail (oqs st)" by (auto simp: oqempty_def)
  have o: "oqs (formatter rs st) = snd (snd (oqpop rs (oqs st) (0, 0, 0, 0)))"
    "popped (formatter rs st) = popped st @ [fst (snd (oqpop rs (oqs st) (0, 0, 0, 0)))]"
    using True by (simp_all add: formatter_def case_prod_beta)
  show ?thesis
    using assms oq_contents_pop [OF i ne] oqpop_inv [OF i, of "(0, 0, 0, 0)"]
    by (simp add: store_inv_def stored_def o formatter_frame)
qed

lemma store_inv_pass:
  assumes "store_inv rs st"
  shows "store_inv rs (main_pass rs env st)"
proof -
  have "store_inv rs (fold interrupt (fst env) st)"
    using assms by (rule store_inv_frame) (simp_all add: fold_interrupt_frame)
  then have "store_inv rs (formatter rs (dispatcher rs (fold interrupt (fst env) st)))"
    by (intro store_inv_formatter store_inv_dispatcher)
  then show ?thesis
    unfolding main_pass_def by (rule store_inv_frame) (simp_all add: transmitter_frame)
qed

lemma store_inv_loop:
  assumes "store_inv rs st"
  shows "store_inv rs (main_loop rs envs st)"
  using assms by (induction envs arbitrary: st) (simp_all add: store_inv_pass)

section \<open>The input queue\<close>

lemma u8_unat_less: "unat (x :: u8) < 256"
  using unsigned_less [of x, where ?'a = nat] by simp

lemma u8_diff_mod4:
  fixes h t :: u8
  assumes "unat h mod 4 = 0" and "unat t mod 4 = 0"
  shows "unat (h - t) mod 4 = 0"
  using assms u8_unat_less [of h] u8_unat_less [of t]
  unfolding unat_sub_if' by (simp split: if_splits) presburger

lemma u8_add4_mod4:
  fixes h :: u8
  assumes "unat h mod 4 = 0"
  shows "unat (h + 4) mod 4 = 0"
  using assms u8_unat_less [of h]
  unfolding unat_plus_if' by (simp split: if_splits) presburger

lemma u8_push_dist:
  fixes h t :: u8
  assumes "unat (h - t) div 4 < 63"
  shows "unat (h + 4 - t) = unat (h - t) + 4"
proof -
  have e: "h + 4 - t = (h - t) + 4" by simp
  from assms have "unat (h - t) + 4 < 256" by simp
  then show ?thesis unfolding e unat_plus_if' by simp
qed

lemma u8_pop_dist:
  fixes h t :: u8
  assumes "unat h mod 4 = 0" and "unat t mod 4 = 0" and "h \<noteq> t"
  shows "unat (h - t) = unat (h - (t + 4)) + 4"
proof -
  have e: "h - (t + 4) = (h - t) - 4" by simp
  have "h - t \<noteq> 0" using assms(3) by simp
  then have "unat (h - t) \<noteq> 0" by (simp add: unat_eq_zero)
  moreover have "unat (h - t) mod 4 = 0" using assms(1,2) by (rule u8_diff_mod4)
  ultimately have "4 \<le> unat (h - t)" by presburger
  then show ?thesis unfolding e unat_sub_if' [of "h - t" 4] by simp
qed

lemma u8_slot_neq_head:
  fixes h t :: u8
  assumes "i < unat (h - t) div 4"
  shows "t + 4 * of_nat i \<noteq> h"
proof
  assume "t + 4 * of_nat i = h"
  then have "h - t = (t + 4 * of_nat i) - t" by simp
  then have "h - t = of_nat (4 * i)" by simp
  then have "unat (h - t) = (4 * i) mod 256" by (simp only: unat_of_nat) simp
  moreover have "i < 64" using assms u8_unat_less [of "h - t"] by simp
  ultimately have "unat (h - t) = 4 * i" by simp
  with assms show False by simp
qed

lemma u8_slot_last:
  fixes h t :: u8
  assumes "unat h mod 4 = 0" and "unat t mod 4 = 0"
  shows "t + 4 * of_nat (unat (h - t) div 4) = h"
proof -
  have "unat (h - t) mod 4 = 0" using assms by (rule u8_diff_mod4)
  then have "4 * (unat (h - t) div 4) = unat (h - t)" by presburger
  then have "(4 :: u8) * of_nat (unat (h - t) div 4) = of_nat (unat (h - t))"
    by (metis of_nat_mult of_nat_numeral)
  then show ?thesis by simp
qed

lemma u8_slot_mod4:
  fixes t :: u8
  assumes "unat t mod 4 = 0"
  shows "unat (t + 4 * of_nat i) mod 4 = 0"
proof (induction i)
  case 0
  then show ?case using assms by simp
next
  case (Suc i)
  have "t + 4 * of_nat (Suc i) = (t + 4 * of_nat i) + 4" by (simp add: algebra_simps)
  then show ?case using u8_add4_mod4 [OF Suc] by (simp only:)
qed

lemma slot_bytes_disjoint:
  fixes a b :: u8
  assumes "unat a mod 4 = 0" and "unat b mod 4 = 0" and "a \<noteq> b" and "k < 4" and "k' < 4"
  shows "unat a + k \<noteq> unat b + k'"
proof -
  from assms(3) have "unat a \<noteq> unat b" by (simp add: word_unat_eq_iff)
  with assms(1,2,4,5) show ?thesis by presburger
qed


lemma interrupt_mcu:
  assumes "iq_inv cp st"
  shows "mcu (interrupt vi st) =
    (mcu st)\<lparr>regs := (regs (mcu st))(R3 := pin_in (snd vi), R4 := tcnt1l_in (snd vi),
                    R5 := tcnt1h_in (snd vi), R26 := regs (mcu st) R26 + 4),
       ram := (ram (mcu st))(256 + unat (regs (mcu st) R26) := tcnt1l_in (snd vi),
                      256 + unat (regs (mcu st) R26) + 1 := tcnt1h_in (snd vi),
                      256 + unat (regs (mcu st) R26) + 2 := pin_in (snd vi),
                      256 + unat (regs (mcu st) R26) + 3 := kind_of (sample_of cp vi))\<rparr>"
proof -
  from assms have p: "regs (mcu st) R27 = IQPAGE" and a: "unat (regs (mcu st) R26) mod 4 = 0"
    and z: "regs (mcu st) R1 = 0" and f: "regs (mcu st) R6 = INTERRUPT_FLAG_CLEAR cp"
    by (simp_all add: iq_inv_def)
  show ?thesis
  proof (cases "fst vi")
    case TIMER1_OVF
    then show ?thesis
      using capture_isr_run [OF p a, of R1 "snd vi"] z
      by (simp add: interrupt_def isr_def TIMER_ISR_def sample_of_def kind_of_def)
  next
    case EDGE
    then show ?thesis
      using capture_isr_run [OF p a, of R6 "snd vi"] f
      by (simp add: interrupt_def isr_def CAPTURE_ISR_def sample_of_def kind_of_def)
  qed
qed

lemma interrupt_frame:
  "iqtail (interrupt vi st) = iqtail st" "dequeued (interrupt vi st) = dequeued st"
  by (simp_all add: interrupt_def)

lemma interrupt_inv:
  assumes "iq_inv cp st"
  shows "iq_inv cp (interrupt vi st)"
  using assms u8_add4_mod4 [of "regs (mcu st) R26"]
  by (simp add: iq_inv_def interrupt_mcu [OF assms] interrupt_frame)

lemma interrupt_head:
  assumes "iq_inv cp st"
  shows "regs (mcu (interrupt vi st)) R26 = regs (mcu st) R26 + 4"
  by (simp add: interrupt_mcu [OF assms])

lemma interrupt_entry:
  assumes "iq_inv cp st" and "unat x mod 4 = 0"
  shows "iq_entry (mcu (interrupt vi st)) x =
    (if x = regs (mcu st) R26 then sample_of cp vi else iq_entry (mcu st) x)"
proof (cases "x = regs (mcu st) R26")
  case True
  then show ?thesis
    by (simp add: interrupt_mcu [OF assms(1)] iq_entry_def iqueue_def IQPAGE_def
        sample_of_def kind_of_def)
next
  case False
  from assms(1) have a: "unat (regs (mcu st) R26) mod 4 = 0" by (simp add: iq_inv_def)
  note d = slot_bytes_disjoint [OF assms(2) a False]
  have "unat x + k \<noteq> unat (regs (mcu st) R26) + k'" if "k < 4" "k' < 4" for k k'
    using d that by simp
  from this [of 0 0] this [of 0 1] this [of 0 2] this [of 0 3]
    this [of 1 0] this [of 1 1] this [of 1 2] this [of 1 3]
    this [of 2 0] this [of 2 1] this [of 2 2] this [of 2 3]
    this [of 3 0] this [of 3 1] this [of 3 2] this [of 3 3]
  show ?thesis
    using False
    by (simp add: interrupt_mcu [OF assms(1)] iq_entry_def iqueue_def IQPAGE_def)
qed

lemma interrupt_count:
  assumes "iq_inv cp st" and "iq_count st < IQ_CAPACITY"
  shows "iq_count (interrupt vi st) = Suc (iq_count st)"
proof -
  from assms(1) have a: "unat (regs (mcu st) R26) mod 4 = 0" and b: "unat (iqtail st) mod 4 = 0"
    by (simp_all add: iq_inv_def)
  have m: "unat (regs (mcu st) R26 - iqtail st) mod 4 = 0" using a b by (rule u8_diff_mod4)
  have "unat (regs (mcu st) R26 + 4 - iqtail st) = unat (regs (mcu st) R26 - iqtail st) + 4"
    using assms(2) by (intro u8_push_dist) (simp add: iq_count_def IQ_CAPACITY_def)
  then show ?thesis
    by (simp add: iq_count_def interrupt_head [OF assms(1)] interrupt_frame)
qed

lemma interrupt_pending:
  assumes "iq_inv cp st" and "iq_count st < IQ_CAPACITY"
  shows "iq_pending (interrupt vi st) = iq_pending st @ [sample_of cp vi]"
proof -
  from assms(1) have a: "unat (regs (mcu st) R26) mod 4 = 0" and b: "unat (iqtail st) mod 4 = 0"
    by (simp_all add: iq_inv_def)
  have old: "iq_entry (mcu (interrupt vi st)) (iqtail st + 4 * of_nat i) =
      iq_entry (mcu st) (iqtail st + 4 * of_nat i)" if "i < iq_count st" for i
  proof -
    have "iqtail st + 4 * of_nat i \<noteq> regs (mcu st) R26"
      using that by (intro u8_slot_neq_head) (simp add: iq_count_def)
    then show ?thesis
      using interrupt_entry [OF assms(1) u8_slot_mod4 [OF b, of i]] by simp
  qed
  have new: "iq_entry (mcu (interrupt vi st)) (iqtail st + 4 * of_nat (iq_count st)) =
      sample_of cp vi"
    using interrupt_entry [OF assms(1) u8_slot_mod4 [OF b, of "iq_count st"]]
      u8_slot_last [OF a b]
    by (simp add: iq_count_def)
  show ?thesis
    using old new
    by (simp add: iq_pending_def interrupt_count [OF assms] interrupt_frame)
qed

lemma fold_interrupt_pending:
  assumes "iq_inv cp st" and "iq_count st + length is \<le> IQ_CAPACITY"
  shows "iq_inv cp (fold interrupt is st) \<and>
         iq_pending (fold interrupt is st) = iq_pending st @ map (sample_of cp) is \<and>
         iq_count (fold interrupt is st) = iq_count st + length is"
  using assms
proof (induction "is" arbitrary: st)
  case Nil
  then show ?case by simp
next
  case (Cons vi "is")
  have c: "iq_count st < IQ_CAPACITY" using Cons.prems(2) by simp
  have i1: "iq_inv cp (interrupt vi st)" using Cons.prems(1) by (rule interrupt_inv)
  have c1: "iq_count (interrupt vi st) + length is \<le> IQ_CAPACITY"
    using Cons.prems(2) interrupt_count [OF Cons.prems(1) c] by simp
  show ?case
    using Cons.IH [OF i1 c1] interrupt_pending [OF Cons.prems(1) c]
      interrupt_count [OF Cons.prems(1) c]
    by simp
qed

lemma dispatcher_pending:
  assumes "iq_inv cp st"
  shows "iq_inv cp (dispatcher rs st) \<and>
         dequeued (dispatcher rs st) @ iq_pending (dispatcher rs st) =
           dequeued st @ iq_pending st \<and>
         iq_count (dispatcher rs st) \<le> iq_count st"
proof (cases "regs (mcu st) R26 = iqtail st")
  case True
  then show ?thesis using assms by (simp add: dispatcher_def)
next
  case False
  from assms have a: "unat (regs (mcu st) R26) mod 4 = 0" and b: "unat (iqtail st) mod 4 = 0"
    by (simp_all add: iq_inv_def)
  have t: "iqtail (dispatcher rs st) = iqtail st + 4"
    and d: "dequeued (dispatcher rs st) = dequeued st @ [iq_entry (mcu st) (iqtail st)]"
    using False
    by (simp_all add: dispatcher_def Let_def case_prod_beta iq_entry_def IQENTRYSZ_def)
  have c: "iq_count st = Suc (iq_count (dispatcher rs st))"
    using u8_pop_dist [OF a b False]
    by (simp add: iq_count_def t dispatcher_frame)
  have s: "iqtail st + 4 + 4 * of_nat i = iqtail st + 4 * of_nat (Suc i)" for i
    by (simp add: algebra_simps)
  have "iq_pending st = iq_entry (mcu st) (iqtail st) # iq_pending (dispatcher rs st)"
    unfolding iq_pending_def c [symmetric, THEN sym] t dispatcher_frame s
    by (simp add: c upt_conv_Cons map_Suc_upt [symmetric] del: upt_Suc)
  then show ?thesis
    using assms u8_add4_mod4 [OF b] c
    by (simp add: d iq_inv_def t dispatcher_frame)
qed

section \<open>From the capture routines to the output queue\<close>

lemma throttle_subseq: "subseq (fst (throttle a xs)) (map oq_entry_of xs)"
  by (induction xs arbitrary: a) auto

lemma oq_entry_of_kind: "kind_of (oq_entry_of s) = 0 \<longleftrightarrow> kind_of s \<noteq> 0"
  by (cases s) (simp add: oq_entry_of_def kind_of_def)

lemma throttle_real_kept:
  "filter (\<lambda>e. kind_of e = 0) (fst (throttle a xs)) =
     map oq_entry_of (filter (\<lambda>s. kind_of s \<noteq> 0) xs)"
  by (induction xs arbitrary: a) (simp_all add: oq_entry_of_kind)

lemma pass_fifo:
  assumes "iq_inv cp st" and "iq_count st + length (fst env) \<le> IQ_CAPACITY"
  shows "iq_inv cp (main_pass rs env st) \<and>
         dequeued (main_pass rs env st) @ iq_pending (main_pass rs env st) =
           dequeued st @ iq_pending st @ map (sample_of cp) (fst env)"
proof -
  let ?s1 = "fold interrupt (fst env) st"
  let ?s2 = "dispatcher rs ?s1"
  note f = fold_interrupt_pending [OF assms]
  then have i1: "iq_inv cp ?s1" by simp
  note d = dispatcher_pending [OF i1, of rs]
  have m: "mcu (main_pass rs env st) = mcu ?s2" "iqtail (main_pass rs env st) = iqtail ?s2"
    "dequeued (main_pass rs env st) = dequeued ?s2"
    by (simp_all add: main_pass_def transmitter_frame formatter_frame)
  have "iq_pending (main_pass rs env st) = iq_pending ?s2"
    by (simp add: iq_pending_def iq_count_def m)
  moreover have "iq_inv cp (main_pass rs env st) = iq_inv cp ?s2"
    by (simp add: iq_inv_def m)
  ultimately show ?thesis
    using f d by (simp add: m fold_interrupt_frame)
qed

lemma loop_fifo:
  assumes "iq_inv cp st" and "within_capacity rs envs st"
  shows "iq_inv cp (main_loop rs envs st) \<and>
         dequeued (main_loop rs envs st) @ iq_pending (main_loop rs envs st) =
           dequeued st @ iq_pending st @ produced cp envs"
  using assms
proof (induction envs arbitrary: st)
  case Nil
  then show ?case by (simp add: produced_def)
next
  case (Cons env envs)
  from Cons.prems(2) have c: "iq_count st + length (fst env) \<le> IQ_CAPACITY"
    and w: "within_capacity rs envs (main_pass rs env st)" by simp_all
  note p = pass_fifo [OF Cons.prems(1) c, of rs]
  then have i1: "iq_inv cp (main_pass rs env st)" by simp
  show ?case
    using Cons.IH [OF i1 w] p by (simp add: produced_def)
qed

lemma start_iq:
  "iq_inv cp (main_start cp rs ram0 pin0)" "iq_pending (main_start cp rs ram0 pin0) = []"
  "dequeued (main_start cp rs ram0 pin0) = []" "forwarded (main_start cp rs ram0 pin0) = []"
  "allow_timer_events (main_start cp rs ram0 pin0) = max_timer_events"
  by (simp_all add: iq_inv_def iq_pending_def iq_count_def main_start_def forwarded_def)

lemma main_loop_append:
  "main_loop rs (xs @ ys) st = main_loop rs ys (main_loop rs xs st)"
  by (induction xs arbitrary: st) simp_all

lemma main_loop_replicate_Suc:
  "main_loop rs (replicate (Suc n) env) st = main_pass rs env (main_loop rs (replicate n env) st)"
proof -
  have "replicate (Suc n) env = replicate n env @ [env]"
    by (simp add: replicate_append_same)
  then show ?thesis by (simp only: main_loop_append main_loop.simps)
qed

lemma edge_dispatch:
  assumes i: "iq_inv PortD st" and e: "regs (mcu st) R26 = iqtail st"
  shows "dispatcher rs (interrupt (EDGE, io_3A01F0) st) =
    (interrupt (EDGE, io_3A01F0) st)
      \<lparr>iqtail := iqtail st + IQENTRYSZ, prev_pv := 0xF0,
       dequeued := dequeued st @ [(0x3A, 0x01, 0xF0, 0x0F)],
       oqs := snd (oqpush rs (oqs st) 0x3A 0x01 0xF0 0),
       oqlog := oqlog st @ [((0x3A, 0x01, 0xF0, 0), fst (oqpush rs (oqs st) 0x3A 0x01 0xF0 0))],
       allow_timer_events := max_timer_events\<rparr>"
proof -
  let ?s1 = "interrupt (EDGE, io_3A01F0) st"
  from i have b: "unat (iqtail st) mod 4 = 0" by (simp add: iq_inv_def)
  have h: "regs (mcu ?s1) R26 = iqtail st + 4" using interrupt_head [OF i] e by simp
  have ne: "regs (mcu ?s1) R26 \<noteq> iqtail ?s1" by (simp add: h interrupt_frame)
  have en: "iq_entry (mcu ?s1) (iqtail ?s1) = (0x3A, 0x01, 0xF0, 0x0F)"
    using interrupt_entry [OF i b, of "(EDGE, io_3A01F0)"] e
    by (simp add: interrupt_frame sample_of_def io_3A01F0_def INTERRUPT_FLAG_CLEAR_def)
  have f: "oqs ?s1 = oqs st" "oqlog ?s1 = oqlog st" "dequeued ?s1 = dequeued st"
    "iqtail ?s1 = iqtail st"
    by (simp_all add: interrupt_def)
  show ?thesis
    unfolding dispatcher_dequeue [OF ne en] by (simp add: Let_def f)
qed

lemma stalled_pass:
  assumes i: "iq_inv PortD st" and e: "regs (mcu st) R26 = iqtail st"
    and b: "obuf st ! unat (obuf_idx st) \<noteq> 0"
  shows "main_pass rs edge_env st =
    (interrupt (EDGE, io_3A01F0) st)
      \<lparr>iqtail := iqtail st + IQENTRYSZ, prev_pv := 0xF0,
       dequeued := dequeued st @ [(0x3A, 0x01, 0xF0, 0x0F)],
       oqs := snd (oqpush rs (oqs st) 0x3A 0x01 0xF0 0),
       oqlog := oqlog st @ [((0x3A, 0x01, 0xF0, 0), fst (oqpush rs (oqs st) 0x3A 0x01 0xF0 0))],
       allow_timer_events := max_timer_events\<rparr>"
proof -
  let ?x = "dispatcher rs (interrupt (EDGE, io_3A01F0) st)"
  have o: "obuf ?x ! unat (obuf_idx ?x) \<noteq> 0"
    using b by (simp add: dispatcher_frame interrupt_def)
  have "main_pass rs edge_env st = transmitter False (formatter rs ?x)"
    by (simp add: main_pass_def edge_env_def)
  also have "\<dots> = ?x" using o by (simp add: formatter_def transmitter_def)
  finally show ?thesis by (simp only: edge_dispatch [OF i e])
qed

lemma stalled_step:
  assumes "stalled_inv n st" and "0 < n" and "n < 512"
  shows "stalled_inv (Suc n) (main_pass 2560 edge_env st)"
proof -
  from assms(1) have i: "iq_inv PortD st" and e: "regs (mcu st) R26 = iqtail st"
    and q: "oq_inv 2560 (oqs st)" and c: "oq_count 2560 (oqs st) = n - 1"
    and b: "obuf st ! unat (obuf_idx st) \<noteq> 0"
    and d: "dequeued st = replicate n (0x3A, 0x01, 0xF0, 0x0F)"
    and l: "oqlog st = replicate n ((0x3A, 0x01, 0xF0, 0), 1)"
    by (simp_all add: stalled_inv_def)
  have nf: "oqnext 2560 (oqhead (oqs st)) \<noteq> oqtail (oqs st)"
    using oq_count_full [OF q] c assms(2,3) by (simp add: OQSZ_2560)
  have r: "fst (oqpush 2560 (oqs st) 0x3A 0x01 0xF0 0) = 1"
    using nf by (simp add: oqpush_def Let_def)
  have i1: "iq_inv PortD (interrupt (EDGE, io_3A01F0) st)" using i by (rule interrupt_inv)
  have h: "regs (mcu (interrupt (EDGE, io_3A01F0) st)) R26 = iqtail st + 4"
    using interrupt_head [OF i] e by simp
  have t4: "unat (iqtail st + 4) mod 4 = 0"
    using i by (intro u8_add4_mod4) (simp add: iq_inv_def)
  have q1: "oq_inv 2560 (snd (oqpush 2560 (oqs st) 0x3A 0x01 0xF0 0))"
    using q by (rule oqpush_inv)
  have c1: "oq_count 2560 (snd (oqpush 2560 (oqs st) 0x3A 0x01 0xF0 0)) = Suc (oq_count 2560 (oqs st))"
    using q nf by (rule oq_count_push)
  show ?thesis
    unfolding stalled_pass [OF i e b]
    using i1 h t4 q1 c1 c b d l r assms(2)
    by (simp add: stalled_inv_def iq_inv_def IQENTRYSZ_def interrupt_def
        replicate_append_same)
qed


lemma start_facts:
  "iq_inv PortD (main_start PortD 2560 ram_zero 0xFF)"
  "regs (mcu (main_start PortD 2560 ram_zero 0xFF)) R26 = iqtail (main_start PortD 2560 ram_zero 0xFF)"
  by (simp_all add: iq_inv_def main_start_def)

lemma stalled_first:
  "stalled_inv 1 (main_pass 2560 edge_env (main_start PortD 2560 ram_zero 0xFF))"
proof -
  let ?st = "main_start PortD 2560 ram_zero 0xFF"
  let ?x = "dispatcher 2560 (interrupt (EDGE, io_3A01F0) ?st)"
  define q1 where "q1 = snd (oqpush 2560 (oq_init 2560) 0x3A 0x01 0xF0 0)"
  note d = edge_dispatch [OF start_facts, of 2560]
  have p: "fst (oqpush 2560 (oq_init 2560) 0x3A 0x01 0xF0 0) = 1"
    "oqhead q1 = 4" "oqtail q1 = 0" "length (oqueue q1) = 2048"
    by (simp_all add: q1_def oqpush_def oqnext_def oq_init_def OQSZ_2560 OQENTRYSZ_def Let_def)
  have i1: "iq_inv PortD (interrupt (EDGE, io_3A01F0) ?st)"
    using start_facts(1) by (rule interrupt_inv)
  have h: "regs (mcu (interrupt (EDGE, io_3A01F0) ?st)) R26 = 4"
    using interrupt_head [OF start_facts(1), of "(EDGE, io_3A01F0)"]
    by (simp add: main_start_def)
  have x: "iq_inv PortD ?x" "regs (mcu ?x) R26 = iqtail ?x" "oqs ?x = q1"
    "obuf ?x = replicate 16 0" "obuf_idx ?x = 0"
    "dequeued ?x = [(0x3A, 0x01, 0xF0, 0x0F)]" "oqlog ?x = [((0x3A, 0x01, 0xF0, 0), 1)]"
    "allow_timer_events ?x = max_timer_events"
    unfolding d using i1 h
    by (simp_all add: iq_inv_def IQENTRYSZ_def interrupt_def main_start_def p q1_def)
  let ?y = "formatter 2560 ?x"
  obtain e where e: "fst (snd (oqpop 2560 q1 (0, 0, 0, 0))) = e" by simp
  obtain tlo thi pv tf where e4: "e = (tlo, thi, pv, tf)" by (cases e) auto
  have y: "mcu ?y = mcu ?x" "iqtail ?y = iqtail ?x" "dequeued ?y = dequeued ?x"
    "oqlog ?y = oqlog ?x" "allow_timer_events ?y = allow_timer_events ?x"
    by (simp_all add: formatter_frame)
  have f: "oqhead (oqs ?y) = 4" "oqtail (oqs ?y) = 4" "length (oqueue (oqs ?y)) = 2048"
    "obuf ?y = fst (format_entry (replicate 16 0, remaining ?x) e)" "obuf_idx ?y = 0"
    using e
    by (simp_all add: formatter_def x p oqempty_def oqpop_def oqnext_def OQSZ_2560 OQENTRYSZ_def
        case_prod_beta)
  have "take 7 (obuf ?y) ! 0 = hex (drop_bit 4 thi)"
    unfolding f(4) e4 by (subst format_entry_take7(1)) simp_all
  then have "obuf ?y ! 0 \<in> text_chars" using hex_text(1) [of thi] by simp
  then have o: "obuf ?y ! 0 \<noteq> 0" by (auto simp: text_chars_def)
  have m: "main_pass 2560 edge_env ?st = transmitter False ?y"
    by (simp add: main_pass_def edge_env_def)
  show ?thesis
    unfolding m
    using x(1,2,6,7,8) o
    by (simp add: stalled_inv_def iq_inv_def transmitter_def y f oq_inv_def oq_count_def
        OQSZ_2560 OQENTRYSZ_def)
qed

lemma replicate_513: "replicate 512 x @ [x] = replicate 513 x"
proof -
  have "Suc 512 = (513 :: nat)" by simp
  then have "replicate 513 x = replicate (Suc 512) x" by simp
  then show ?thesis by (simp only: replicate_append_same replicate_Suc)
qed

lemma stalled_n:
  assumes "0 < n" and "n \<le> 512"
  shows "stalled_inv n (main_loop 2560 (replicate n edge_env) (main_start PortD 2560 ram_zero 0xFF))"
  using assms
proof (induction n)
  case 0
  then show ?case by simp
next
  case (Suc n)
  show ?case
  proof (cases "n = 0")
    case True
    then show ?thesis using stalled_first by simp
  next
    case False
    then have "stalled_inv n (main_loop 2560 (replicate n edge_env) (main_start PortD 2560 ram_zero 0xFF))"
      using Suc by simp
    then show ?thesis
      unfolding main_loop_replicate_Suc using False Suc.prems(2)
      by (intro stalled_step) simp_all
  qed
qed

lemma edge_pass_iq:
  assumes i: "iq_inv PortD st" and e: "regs (mcu st) R26 = iqtail st"
  shows "iq_inv PortD (main_pass rs edge_env st) \<and>
         regs (mcu (main_pass rs edge_env st)) R26 = iqtail (main_pass rs edge_env st)"
proof -
  let ?x = "dispatcher rs (interrupt (EDGE, io_3A01F0) st)"
  have m: "mcu (main_pass rs edge_env st) = mcu ?x" "iqtail (main_pass rs edge_env st) = iqtail ?x"
    by (simp_all add: main_pass_def edge_env_def transmitter_frame formatter_frame)
  have i1: "iq_inv PortD (interrupt (EDGE, io_3A01F0) st)" using i by (rule interrupt_inv)
  have h: "regs (mcu (interrupt (EDGE, io_3A01F0) st)) R26 = iqtail st + 4"
    using interrupt_head [OF i] e by simp
  have t4: "unat (iqtail st + 4) mod 4 = 0"
    using i by (intro u8_add4_mod4) (simp add: iq_inv_def)
  show ?thesis
    unfolding iq_inv_def m edge_dispatch [OF i e]
    using i1 h t4 by (simp add: iq_inv_def IQENTRYSZ_def)
qed

lemma stalled_within_capacity:
  assumes "iq_inv PortD st" and "regs (mcu st) R26 = iqtail st"
  shows "within_capacity rs (replicate m edge_env) st"
  using assms
proof (induction m arbitrary: st)
  case 0
  then show ?case by simp
next
  case (Suc m)
  have "iq_count st = 0" using Suc.prems(2) by (simp add: iq_count_def)
  then show ?case
    using Suc.IH edge_pass_iq [OF Suc.prems]
    by (simp add: edge_env_def [symmetric] IQ_CAPACITY_def) (simp add: edge_env_def)
qed

lemma concat_replicate_single: "concat (replicate n [x]) = replicate n x"
  by (induction n) simp_all

lemma throttle_run_within:
  "within_capacity 2560 throttle_run_envs (main_start PortD 2560 ram_zero 0xFF)"
  by (simp add: throttle_run_envs_def main_start_def main_pass_def
      interrupt_def isr_def TIMER_ISR_def iq_count_def IQ_CAPACITY_def
      CAPTURE_ISR_def CAPTURE_ISR_body_def X_addr_def X_inc_def IQPAGE_def
      INTERRUPT_FLAG_CLEAR_def io_3A01F0_def io_tick_def ram_zero_def dispatcher_def iqueue_def
      IQENTRYSZ_def oqpush_def oqnext_def OQSZ_def OQENTRYSZ_def oq_init_def Let_def
      max_timer_events_def items_per_line_def formatter_def oqempty_def oqpop_def
      format_entry_def hex_def transmitter_def print_P_def banner_def replicate_16)

section \<open>Rendering in the running program\<close>

lemma main_pass_mid:
  "main_pass rs env st = transmitter (snd env) (formatter rs (pass_mid rs (fst env) st))"
  by (simp add: main_pass_def pass_mid_def)

lemma pass_mid_frame:
  "obuf (pass_mid rs irqs st) = obuf st"
  "obuf_idx (pass_mid rs irqs st) = obuf_idx st"
  "remaining (pass_mid rs irqs st) = remaining st"
  "usb_tx (pass_mid rs irqs st) = usb_tx st"
  "popped (pass_mid rs irqs st) = popped st"
  by (simp_all add: pass_mid_def dispatcher_frame fold_interrupt_frame)

lemma fmt_inv_start: "fmt_inv (main_start cp rs ram0 pin0)"
  by (simp add: fmt_inv_def main_start_def items_per_line_def)

lemma formatter_renders:
  assumes i: "fmt_inv st" and g: "obuf st ! unat (obuf_idx st) = 0" "oqempty (oqs st) = 0"
    and e: "fst (snd (oqpop rs (oqs st) (0, 0, 0, 0))) = (tlo, thi, pv, tf)"
  shows "obuf (formatter rs st) =
      [hex (drop_bit 4 thi), hex (thi AND 0x0F), hex (drop_bit 4 tlo), hex (tlo AND 0x0F),
       hex (drop_bit 4 pv), hex (pv AND 0x0F), hex (tf AND 0x01),
       if Suc (length (popped st)) mod 10 = 0 then 0x0A else of_char CHR '' '', 0]
      @ replicate 7 0"
    and "remaining (formatter rs st) = of_nat (10 - Suc (length (popped st)) mod 10)"
    and "popped (formatter rs st) = popped st @ [(tlo, thi, pv, tf)]"
    and "obuf_idx (formatter rs st) = 0"
    and "oqs (formatter rs st) = snd (snd (oqpop rs (oqs st) (0, 0, 0, 0)))"
proof -
  from i have l: "length (obuf st) = 16" and d: "drop 9 (obuf st) = replicate 7 0"
    and r: "remaining st = of_nat (10 - length (popped st) mod 10)"
    by (simp_all add: fmt_inv_def)
  have m: "length (popped st) mod 10 < 10" by simp
  have nine: "length (popped st) mod 10 = 9 \<longleftrightarrow> Suc (length (popped st)) mod 10 = 0"
    by presburger
  have f: "format_entry (obuf st, remaining st) (tlo, thi, pv, tf) =
    ([hex (drop_bit 4 thi), hex (thi AND 0x0F), hex (drop_bit 4 tlo), hex (tlo AND 0x0F),
      hex (drop_bit 4 pv), hex (pv AND 0x0F), hex (tf AND 0x01),
      if Suc (length (popped st)) mod 10 = 0 then 0x0A else of_char CHR '' '', 0]
      @ replicate 7 0,
     of_nat (10 - Suc (length (popped st)) mod 10))"
    unfolding format_entry_step [OF l m r] nine mod_Suc_eq d ..
  obtain rr q' where p: "oqpop rs (oqs st) (0, 0, 0, 0) = (rr, (tlo, thi, pv, tf), q')"
    using e by (cases "oqpop rs (oqs st) (0, 0, 0, 0)") auto
  have fm: "formatter rs st = st\<lparr>oqs := q',
      obuf := fst (format_entry (obuf st, remaining st) (tlo, thi, pv, tf)),
      remaining := snd (format_entry (obuf st, remaining st) (tlo, thi, pv, tf)),
      obuf_idx := 0, popped := popped st @ [(tlo, thi, pv, tf)]\<rparr>"
    using g by (simp add: formatter_def p case_prod_beta)
  show "obuf (formatter rs st) =
      [hex (drop_bit 4 thi), hex (thi AND 0x0F), hex (drop_bit 4 tlo), hex (tlo AND 0x0F),
       hex (drop_bit 4 pv), hex (pv AND 0x0F), hex (tf AND 0x01),
       if Suc (length (popped st)) mod 10 = 0 then 0x0A else of_char CHR '' '', 0]
      @ replicate 7 0"
    unfolding fm f by simp
  show "remaining (formatter rs st) = of_nat (10 - Suc (length (popped st)) mod 10)"
    unfolding fm f by simp
  show "popped (formatter rs st) = popped st @ [(tlo, thi, pv, tf)]"
    unfolding fm by simp
  show "obuf_idx (formatter rs st) = 0" unfolding fm by simp
  show "oqs (formatter rs st) = snd (snd (oqpop rs (oqs st) (0, 0, 0, 0)))"
    unfolding fm by (simp add: p)
qed

lemma formatter_idle:
  assumes "\<not> (obuf st ! unat (obuf_idx st) = 0 \<and> oqempty (oqs st) = 0)"
  shows "formatter rs st = st"
  using assms by (auto simp: formatter_def)

lemma fmt_inv_formatter:
  assumes "fmt_inv st"
  shows "fmt_inv (formatter rs st)"
proof (cases "obuf st ! unat (obuf_idx st) = 0 \<and> oqempty (oqs st) = 0")
  case False
  then show ?thesis using assms by (simp add: formatter_idle)
next
  case True
  obtain tlo thi pv tf where e: "fst (snd (oqpop rs (oqs st) (0, 0, 0, 0))) = (tlo, thi, pv, tf)"
    by (cases "fst (snd (oqpop rs (oqs st) (0, 0, 0, 0)))") auto
  from True have g: "obuf st ! unat (obuf_idx st) = 0" "oqempty (oqs st) = 0" by simp_all
  note r = formatter_renders [OF assms g e]
  show ?thesis by (simp add: fmt_inv_def r)
qed

lemma fmt_inv_frame:
  assumes "fmt_inv st" and "obuf st' = obuf st" and "remaining st' = remaining st"
    and "popped st' = popped st"
  shows "fmt_inv st'"
  using assms by (simp add: fmt_inv_def)

lemma fmt_inv_mid:
  assumes "fmt_inv st"
  shows "fmt_inv (pass_mid rs irqs st)"
  using assms by (rule fmt_inv_frame) (simp_all add: pass_mid_frame)

lemma fmt_inv_pass:
  assumes "fmt_inv st"
  shows "fmt_inv (main_pass rs env st)"
proof -
  have "fmt_inv (formatter rs (pass_mid rs (fst env) st))"
    using assms by (intro fmt_inv_formatter fmt_inv_mid)
  then show ?thesis
    unfolding main_pass_mid by (rule fmt_inv_frame) (simp_all add: transmitter_frame)
qed

lemma fmt_inv_loop:
  assumes "fmt_inv st"
  shows "fmt_inv (main_loop rs envs st)"
  using assms by (induction envs arbitrary: st) (simp_all add: fmt_inv_pass)

lemma group_text_nonzero: "0 \<notin> set (group_text k e)"
proof -
  obtain tlo thi pv tf where e: "e = (tlo, thi, pv, tf)" by (cases e) auto
  have z: "(0 :: u8) \<notin> text_chars" by (simp add: text_chars_def)
  have "set (group_text k e) \<subseteq> text_chars"
    using hex_text [of thi] hex_text [of tlo] hex_text [of pv] hex_text(3) [of tf]
    by (auto simp: group_text_def e text_chars_def)
  with z show ?thesis by auto
qed

lemma takeWhile_group:
  "takeWhile (\<lambda>c. c \<noteq> 0) (group_text k e @ 0 # zs) = group_text k e"
proof -
  have "\<forall>x\<in>set (group_text k e). x \<noteq> 0" using group_text_nonzero [of k e] by auto
  then show ?thesis by (simp add: takeWhile_tail)
qed

lemma stream_inv_start: "stream_inv (main_start cp rs ram0 pin0)"
  using fmt_inv_start [of cp rs ram0 pin0]
  by (simp add: stream_inv_def pending_text_def main_start_def print_P_def replicate_16)

lemma stream_inv_mid:
  assumes "stream_inv st"
  shows "stream_inv (pass_mid rs irqs st)"
  using assms fmt_inv_mid [of st rs irqs]
  by (simp add: stream_inv_def pending_text_def pass_mid_frame)

lemma stream_inv_formatter:
  assumes "stream_inv st"
  shows "stream_inv (formatter rs st)"
proof (cases "obuf st ! unat (obuf_idx st) = 0 \<and> oqempty (oqs st) = 0")
  case False
  then show ?thesis using assms by (simp add: formatter_idle)
next
  case True
  from assms have i: "fmt_inv st" and b: "unat (obuf_idx st) \<le> 8"
    and s: "usb_tx st @ pending_text st =
       banner @ [0x0A] @ concat (map2 group_text [0..<length (popped st)] (popped st))"
    by (simp_all add: stream_inv_def)
  from i have l: "length (obuf st) = 16" by (simp add: fmt_inv_def)
  obtain tlo thi pv tf where e: "fst (snd (oqpop rs (oqs st) (0, 0, 0, 0))) = (tlo, thi, pv, tf)"
    by (cases "fst (snd (oqpop rs (oqs st) (0, 0, 0, 0)))") auto
  from True have g: "obuf st ! unat (obuf_idx st) = 0" "oqempty (oqs st) = 0" by simp_all
  note r = formatter_renders [OF i g e]
  have "drop (unat (obuf_idx st)) (obuf st) = 0 # drop (Suc (unat (obuf_idx st))) (obuf st)"
    using g(1) l b by (simp add: Cons_nth_drop_Suc [symmetric])
  then have p0: "pending_text st = []" by (simp add: pending_text_def)
  have o: "obuf (formatter rs st) =
      group_text (length (popped st)) (tlo, thi, pv, tf) @ 0 # replicate 7 0"
    by (simp add: r(1) group_text_def)
  have p1: "pending_text (formatter rs st) = group_text (length (popped st)) (tlo, thi, pv, tf)"
    by (simp add: pending_text_def r(4) o takeWhile_group del: replicate_Suc)
  have z: "map2 group_text [0..<Suc (length (popped st))] (popped st @ [(tlo, thi, pv, tf)]) =
      map2 group_text [0..<length (popped st)] (popped st) @
      [group_text (length (popped st)) (tlo, thi, pv, tf)]"
    by simp
  have "obuf (formatter rs st) ! 8 = 0" by (simp add: r(1))
  then show ?thesis
    using fmt_inv_formatter [OF i, of rs] s p0
    by (simp add: stream_inv_def p1 r(3,4) z formatter_frame del: upt_Suc)
qed

lemma stream_inv_transmitter:
  assumes "stream_inv st"
  shows "stream_inv (transmitter ready st)"
proof (cases "obuf st ! unat (obuf_idx st) \<noteq> 0 \<and> ready")
  case False
  then show ?thesis using assms by (auto simp: transmitter_def)
next
  case True
  from assms have i: "fmt_inv st" and b: "unat (obuf_idx st) \<le> 8" and z: "obuf st ! 8 = 0"
    and s: "usb_tx st @ pending_text st =
       banner @ [0x0A] @ concat (map2 group_text [0..<length (popped st)] (popped st))"
    by (simp_all add: stream_inv_def)
  from i have l: "length (obuf st) = 16" by (simp add: fmt_inv_def)
  from True z have "unat (obuf_idx st) \<noteq> 8" by auto
  with b have b': "unat (obuf_idx st) < 8" by simp
  then have n: "unat (obuf_idx st + 1) = Suc (unat (obuf_idx st))"
    by (simp add: unat_word_ariths)
  have u: "usb_tx (transmitter ready st) = usb_tx st @ [obuf st ! unat (obuf_idx st)]"
    "obuf_idx (transmitter ready st) = obuf_idx st + 1"
    using True by (simp_all add: transmitter_def)
  have "drop (unat (obuf_idx st)) (obuf st) =
      obuf st ! unat (obuf_idx st) # drop (Suc (unat (obuf_idx st))) (obuf st)"
    using l b' by (simp add: Cons_nth_drop_Suc)
  moreover have "pending_text (transmitter ready st) =
      takeWhile (\<lambda>c. c \<noteq> 0) (drop (Suc (unat (obuf_idx st))) (obuf st))"
    by (simp only: pending_text_def u(2) n transmitter_frame)
  moreover have "obuf st ! unat (obuf_idx st) \<noteq> 0" using True by simp
  ultimately have p: "pending_text st =
      obuf st ! unat (obuf_idx st) # pending_text (transmitter ready st)"
    by (simp add: pending_text_def)
  have "fmt_inv (transmitter ready st)"
    using i by (rule fmt_inv_frame) (simp_all add: transmitter_frame)
  then show ?thesis
    using s b' z unfolding p by (simp add: stream_inv_def u n transmitter_frame)
qed

lemma stream_inv_pass:
  assumes "stream_inv st"
  shows "stream_inv (main_pass rs env st)"
  unfolding main_pass_mid
  using assms by (intro stream_inv_transmitter stream_inv_formatter stream_inv_mid)

lemma stream_inv_loop:
  assumes "stream_inv st"
  shows "stream_inv (main_loop rs envs st)"
  using assms by (induction envs arbitrary: st) (simp_all add: stream_inv_pass)


lemma throttle_set: "set (fst (throttle a xs)) \<subseteq> oq_entry_of ` set xs"
  by (induction xs arbitrary: a) auto

lemma log_ext_mid: "\<exists>new. log_ext st (pass_mid rs irqs st) new"
proof -
  obtain new where "log_ext (fold interrupt irqs st) (dispatcher rs (fold interrupt irqs st)) new"
    using log_ext_dispatcher by blast
  then have "log_ext st (pass_mid rs irqs st) new"
    by (simp add: log_ext_def forwarded_def pass_mid_def fold_interrupt_frame)
  then show ?thesis ..
qed

lemma mid_forwarded:
  assumes "s = main_loop rs envs (main_start cp rs ram0 pin0)" and "m = pass_mid rs irqs s"
  shows "forwarded m = fst (throttle max_timer_events (dequeued m))"
proof -
  obtain xs where x: "log_ext (main_start cp rs ram0 pin0) s xs"
    unfolding assms(1) using log_ext_loop by blast
  obtain ys where y: "log_ext s m ys" unfolding assms(2) using log_ext_mid by blast
  from x y have "log_ext (main_start cp rs ram0 pin0) m (xs @ ys)" by (rule log_ext_trans)
  then show ?thesis by (simp add: log_ext_def start_iq)
qed

lemma mid_store_inv:
  assumes "0 < OQSZ rs" and "s = main_loop rs envs (main_start cp rs ram0 pin0)"
    and "m = pass_mid rs irqs s"
  shows "store_inv rs m"
proof -
  have "store_inv rs s"
    unfolding assms(2) using store_inv_start [OF assms(1)] by (rule store_inv_loop)
  then have "store_inv rs (fold interrupt irqs s)"
    by (rule store_inv_frame) (simp_all add: fold_interrupt_frame)
  then show ?thesis unfolding assms(3) pass_mid_def by (rule store_inv_dispatcher)
qed

lemma mid_fmt_inv:
  assumes "s = main_loop rs envs (main_start cp rs ram0 pin0)" and "m = pass_mid rs irqs s"
  shows "fmt_inv m"
  unfolding assms using fmt_inv_start by (intro fmt_inv_mid fmt_inv_loop)

text \<open>Evaluating the concrete runs.\<close>

lemmas run_defs = throttle_run_envs_def main_start_def main_pass_def
      interrupt_def isr_def TIMER_ISR_def
      CAPTURE_ISR_def CAPTURE_ISR_body_def X_addr_def X_inc_def IQPAGE_def
      INTERRUPT_FLAG_CLEAR_def io_3A01F0_def io_tick_def ram_zero_def dispatcher_def iqueue_def
      IQENTRYSZ_def oqpush_def oqnext_def OQSZ_def OQENTRYSZ_def oq_init_def Let_def
      max_timer_events_def items_per_line_def formatter_def oqempty_def oqpop_def
      format_entry_def hex_def transmitter_def print_P_def banner_def replicate_16

lemma waiting_run_state:
  "dequeued waiting_run =
     [(0x05, 0, 0xFF, 0), (0x05, 0, 0xFF, 0), (0x05, 0, 0xFF, 0), (0x3A, 0x01, 0xF0, 0x0F)]"
  "popped waiting_run = [(0x05, 0, 0xFF, 1)]"
  "obuf waiting_run ! unat (obuf_idx waiting_run) = 0"
  "oqempty (oqs waiting_run) = 0"
  "regs (mcu waiting_run) R26 = iqtail waiting_run"
  "usb_tx waiting_run = banner @ [0x0A] @ map of_char ''0005FF1 ''"
  by (simp_all add: waiting_run_def idle_env_def run_defs)

text \<open>
  C6. In every run of the program, whenever the formatter finds the line buffer consumed
  and the output queue not empty, it writes the seven digits of the entry it takes, then
  a line break if this is the rendering number 10, 20, 30, ... of the run and a space
  otherwise, then a 0 byte; it leaves \<^verbatim>\<open>remaining\<close> at 10 after a line break and one
  lower otherwise. The text transmitted so far, with what still waits in the line buffer,
  is the banner line followed by these groups. Every digit is the character of
  \<^verbatim>\<open>0123456789ABCDEF\<close> at the position of its value.
\<close>

theorem line_break_cadence:
  assumes "s = main_loop rs envs (main_start cp rs ram0 pin0)" and "m = pass_mid rs irqs s"
    and "obuf m ! unat (obuf_idx m) = 0" and "oqempty (oqs m) = 0"
    and "fst (snd (oqpop rs (oqs m) (0, 0, 0, 0))) = (tlo, thi, pv, tf)"
  shows "obuf (formatter rs m) =
           [hex (drop_bit 4 thi), hex (thi AND 0x0F), hex (drop_bit 4 tlo), hex (tlo AND 0x0F),
            hex (drop_bit 4 pv), hex (pv AND 0x0F), hex (tf AND 0x01),
            if Suc (length (popped m)) mod 10 = 0 then 0x0A else of_char CHR '' '', 0]
           @ replicate 7 0 \<and>
         remaining (formatter rs m) = of_nat (10 - Suc (length (popped m)) mod 10) \<and>
         popped (formatter rs m) = popped m @ [(tlo, thi, pv, tf)] \<and>
         usb_tx s @ pending_text s =
           banner @ [0x0A] @ concat (map2 group_text [0..<length (popped s)] (popped s)) \<and>
         hex (drop_bit 4 x) = of_char (''0123456789ABCDEF'' ! unat (drop_bit 4 x)) \<and>
         hex (x AND 0x0F) = of_char (''0123456789ABCDEF'' ! unat (x AND 0x0F)) \<and>
         hex (x AND 0x01) = of_char (''01'' ! unat (x AND 0x01))"
proof -
  have i: "fmt_inv m" using assms(1,2) by (rule mid_fmt_inv)
  note r = formatter_renders [OF i assms(3,4,5)]
  have "stream_inv s" unfolding assms(1) using stream_inv_start by (rule stream_inv_loop)
  then have t: "usb_tx s @ pending_text s =
      banner @ [0x0A] @ concat (map2 group_text [0..<length (popped s)] (popped s))"
    by (simp add: stream_inv_def)
  show ?thesis using r(1,2,3) t hex_nibbles [of x] by simp
qed

theorem line_break_cadence_witness:
  "waiting_run = main_loop 2560 (throttle_run_envs @ [idle_env, idle_env, idle_env, idle_env])
     (main_start PortD 2560 ram_zero 0xFF) \<and>
   waiting_run = pass_mid 2560 [] waiting_run \<and>
   obuf waiting_run ! unat (obuf_idx waiting_run) = 0 \<and> oqempty (oqs waiting_run) = 0 \<and>
   fst (snd (oqpop 2560 (oqs waiting_run) (0, 0, 0, 0))) = (0x05, 0, 0xFF, 1) \<and>
   obuf (formatter 2560 waiting_run) = map of_char ''0005FF1 '' @ 0 # replicate 7 0 \<and>
   remaining (formatter 2560 waiting_run) = 8 \<and>
   usb_tx waiting_run @ pending_text waiting_run =
     banner @ [0x0A] @ map of_char ''0005FF1 ''"
proof -
  have s: "waiting_run = main_loop 2560 (throttle_run_envs @ [idle_env, idle_env, idle_env, idle_env])
     (main_start PortD 2560 ram_zero 0xFF)"
    by (simp add: waiting_run_def)
  have m: "waiting_run = pass_mid 2560 [] waiting_run"
    using waiting_run_state(5) by (simp add: pass_mid_def dispatcher_def)
  have e: "fst (snd (oqpop 2560 (oqs waiting_run) (0, 0, 0, 0))) = (0x05, 0, 0xFF, 1)"
    by (simp add: waiting_run_def idle_env_def run_defs)
  note g = waiting_run_state(3,4)
  show ?thesis
    using s m g e line_break_cadence [OF s m g e] waiting_run_state(2)
    by (simp add: hex_def group_text_def)
qed

text \<open>
  C1, as the code has it. The dispatcher stores, as the fourth byte of an entry, 1 for a
  timer tick (kind 0) and 0 for a real capture (kind nonzero), and the formatter prints
  bit 0 of that byte. So in every run of the program, every group the formatter renders
  is the text of a sample the dispatcher has dequeued: two hex digits of its high timer
  byte, two of the low one, two of its port state, and the digit 1 if its kind is 0, the
  digit 0 otherwise, followed by the separator.
\<close>

theorem sample_text:
  assumes "0 < OQSZ rs"
    and "s = main_loop rs envs (main_start cp rs ram0 pin0)" and "m = pass_mid rs irqs s"
    and "obuf m ! unat (obuf_idx m) = 0" and "oqempty (oqs m) = 0"
  shows "\<exists>tlo thi pv kind.
           (tlo, thi, pv, kind) \<in> set (dequeued m) \<and>
           popped (formatter rs m) = popped m @ [(tlo, thi, pv, if kind = 0 then 1 else 0)] \<and>
           take 7 (obuf (formatter rs m)) =
             [hex (drop_bit 4 thi), hex (thi AND 0x0F), hex (drop_bit 4 tlo), hex (tlo AND 0x0F),
              hex (drop_bit 4 pv), hex (pv AND 0x0F),
              of_char (if kind = 0 then CHR ''1'' else CHR ''0'')] \<and>
           obuf (formatter rs m) ! 7 =
             (if Suc (length (popped m)) mod 10 = 0 then 0x0A else of_char CHR '' '')"
proof -
  define e where "e = fst (snd (oqpop rs (oqs m) (0, 0, 0, 0)))"
  have si: "store_inv rs m" using assms(1,2,3) by (rule mid_store_inv)
  then have q: "oq_inv rs (oqs m)" and st: "stored m = popped m @ oq_contents rs (oqs m)"
    by (simp_all add: store_inv_def)
  from assms(5) have ne: "oqhead (oqs m) \<noteq> oqtail (oqs m)"
    by (auto simp: oqempty_def split: if_splits)
  have "oq_contents rs (oqs m) = e # oq_contents rs (snd (snd (oqpop rs (oqs m) (0, 0, 0, 0))))"
    unfolding e_def using q ne by (rule oq_contents_pop)
  then have "e \<in> set (stored m)" by (simp add: st)
  moreover have "set (stored m) \<subseteq> set (forwarded m)"
    by (auto simp: stored_def forwarded_def)
  ultimately have "e \<in> set (fst (throttle max_timer_events (dequeued m)))"
    using mid_forwarded [OF assms(2,3)] by auto
  then have "e \<in> oq_entry_of ` set (dequeued m)" using throttle_set by blast
  then obtain smp where smp: "smp \<in> set (dequeued m)" "e = oq_entry_of smp" by auto
  obtain tlo thi pv kind where k: "smp = (tlo, thi, pv, kind)" by (cases smp) auto
  have e4: "fst (snd (oqpop rs (oqs m) (0, 0, 0, 0))) = (tlo, thi, pv, if kind = 0 then 1 else 0)"
    using smp(2) by (simp add: e_def k oq_entry_of_def)
  have i: "fmt_inv m" using assms(2,3) by (rule mid_fmt_inv)
  note r = formatter_renders [OF i assms(4,5) e4]
  have h: "hex ((if kind = 0 then 1 else 0) AND 1) = of_char (if kind = 0 then CHR ''1'' else CHR ''0'')"
    by (simp add: hex_def)
  have "(tlo, thi, pv, kind) \<in> set (dequeued m) \<and>
      popped (formatter rs m) = popped m @ [(tlo, thi, pv, if kind = 0 then 1 else 0)] \<and>
      take 7 (obuf (formatter rs m)) =
        [hex (drop_bit 4 thi), hex (thi AND 0x0F), hex (drop_bit 4 tlo), hex (tlo AND 0x0F),
         hex (drop_bit 4 pv), hex (pv AND 0x0F),
         of_char (if kind = 0 then CHR ''1'' else CHR ''0'')] \<and>
      obuf (formatter rs m) ! 7 =
        (if Suc (length (popped m)) mod 10 = 0 then 0x0A else of_char CHR '' '')"
    using smp(1) k r(1,3) h by simp
  then show ?thesis by blast
qed

theorem sample_text_witness:
  "0 < OQSZ 2560 \<and>
   waiting_run = main_loop 2560 (throttle_run_envs @ [idle_env, idle_env, idle_env, idle_env])
     (main_start PortD 2560 ram_zero 0xFF) \<and>
   waiting_run = pass_mid 2560 [] waiting_run \<and>
   obuf waiting_run ! unat (obuf_idx waiting_run) = 0 \<and> oqempty (oqs waiting_run) = 0 \<and>
   popped (formatter 2560 waiting_run) = [(0x05, 0, 0xFF, 1), (0x05, 0, 0xFF, 1)] \<and>
   take 7 (obuf (formatter 2560 waiting_run)) = map of_char ''0005FF1'' \<and>
   obuf (formatter 2560 waiting_run) ! 7 = of_char CHR '' ''"
proof -
  have z: "0 < OQSZ 2560" by (simp add: OQSZ_2560)
  have s: "waiting_run = main_loop 2560 (throttle_run_envs @ [idle_env, idle_env, idle_env, idle_env])
     (main_start PortD 2560 ram_zero 0xFF)"
    by (simp add: waiting_run_def)
  have m: "waiting_run = pass_mid 2560 [] waiting_run"
    using waiting_run_state(5) by (simp add: pass_mid_def dispatcher_def)
  note g = waiting_run_state(3,4)
  have p: "popped (formatter 2560 waiting_run) = [(0x05, 0, 0xFF, 1), (0x05, 0, 0xFF, 1)]"
    by (simp add: waiting_run_def idle_env_def run_defs)
  from sample_text [OF z s m g] obtain tlo thi pv and kind :: "8 word" where
    t: "popped (formatter 2560 waiting_run) =
          popped waiting_run @ [(tlo, thi, pv, if kind = 0 then 1 else 0)]"
      "take 7 (obuf (formatter 2560 waiting_run)) =
         [hex (drop_bit 4 thi), hex (thi AND 0x0F), hex (drop_bit 4 tlo), hex (tlo AND 0x0F),
          hex (drop_bit 4 pv), hex (pv AND 0x0F),
          of_char (if kind = 0 then CHR ''1'' else CHR ''0'')]"
      "obuf (formatter 2560 waiting_run) ! 7 =
         (if Suc (length (popped waiting_run)) mod 10 = 0 then 0x0A else of_char CHR '' '')"
    by blast
  from t(1) have v: "tlo = 0x05" "thi = 0" "pv = 0xFF" "kind = 0"
    by (simp_all add: p waiting_run_state(2) split: if_splits)
  show ?thesis
    using z s m g p t(2,3) by (simp add: v hex_def waiting_run_state(2))
qed

text \<open>
  C1 as stated fails: the sample with time 0x013A, port state 0xF0 and kind 1, taken by
  the edge routine on port B and passed through dispatcher and formatter, is rendered
  \<^verbatim>\<open>013AF00\<close>, not \<^verbatim>\<open>013AF01\<close>.
\<close>

theorem kind_digit_counterexample:
  "dequeued one_edge_run = [(0x3A, 0x01, 0xF0, 1)] \<and>
   take 7 (obuf one_edge_run) = map of_char ''013AF00'' \<and>
   take 7 (obuf one_edge_run) \<noteq> map of_char ''013AF01''"
  by (simp add: one_edge_run_def main_start_def main_pass_def interrupt_def isr_def
      CAPTURE_ISR_def CAPTURE_ISR_body_def X_addr_def X_inc_def IQPAGE_def
      INTERRUPT_FLAG_CLEAR_def io_3A01F0_def ram_zero_def dispatcher_def iqueue_def
      IQENTRYSZ_def oqpush_def oqnext_def OQSZ_def OQENTRYSZ_def oq_init_def Let_def
      max_timer_events_def items_per_line_def formatter_def oqempty_def oqpop_def
      format_entry_def hex_def transmitter_def print_P_def banner_def replicate_16)

section \<open>What a run adds to the output queue\<close>

lemma queue_ext_frame:
  assumes "oq_inv rs (oqs st)" and "oqs st' = oqs st" and "oqlog st' = oqlog st"
    and "popped st' = popped st"
  shows "queue_ext rs st st' [] []"
  using assms by (simp add: queue_ext_def)

lemma queue_ext_trans:
  assumes a: "queue_ext rs st st' t1 l1" and b: "queue_ext rs st' st'' t2 l2"
  shows "queue_ext rs st st'' (t1 @ t2) (l1 @ l2)"
proof -
  let ?ok = "filter (\<lambda>x. snd x \<noteq> 0)"
  let ?cap = "OQSZ rs div OQENTRYSZ - 1"
  from a have a1: "popped st' = popped st @ t1" "oqlog st' = oqlog st @ l1"
    and a2: "t1 @ oq_contents rs (oqs st') = oq_contents rs (oqs st) @ map fst (?ok l1)"
    and a3: "length (oq_contents rs (oqs st)) + length l1 \<le> ?cap \<Longrightarrow> ?ok l1 = l1"
    by (simp_all add: queue_ext_def)
  from b have b1: "popped st'' = popped st' @ t2" "oqlog st'' = oqlog st' @ l2"
    "oq_inv rs (oqs st'')"
    and b2: "t2 @ oq_contents rs (oqs st'') = oq_contents rs (oqs st') @ map fst (?ok l2)"
    and b3: "length (oq_contents rs (oqs st')) + length l2 \<le> ?cap \<Longrightarrow> ?ok l2 = l2"
    by (simp_all add: queue_ext_def)
  have c: "(t1 @ t2) @ oq_contents rs (oqs st'') =
      oq_contents rs (oqs st) @ map fst (?ok (l1 @ l2))"
  proof -
    have "(t1 @ t2) @ oq_contents rs (oqs st'') = t1 @ (t2 @ oq_contents rs (oqs st''))" by simp
    also have "\<dots> = (t1 @ oq_contents rs (oqs st')) @ map fst (?ok l2)" by (simp only: b2 append_assoc)
    also have "\<dots> = oq_contents rs (oqs st) @ map fst (?ok (l1 @ l2))" by (simp only: a2) simp
    finally show ?thesis .
  qed
  have le: "length (oq_contents rs (oqs st')) \<le> length (oq_contents rs (oqs st)) + length l1"
  proof -
    have "length (t1 @ oq_contents rs (oqs st')) =
        length (oq_contents rs (oqs st)) + length (?ok l1)"
      by (simp only: a2) simp
    then have x: "length t1 + length (oq_contents rs (oqs st')) =
        length (oq_contents rs (oqs st)) + length (?ok l1)"
      by (simp only: length_append)
    have y: "length (?ok l1) \<le> length l1" by (rule length_filter_le)
    from x y show ?thesis by arith
  qed
  have d: "?ok (l1 @ l2) = l1 @ l2"
    if "length (oq_contents rs (oqs st)) + length (l1 @ l2) \<le> ?cap"
  proof -
    from that have "?ok l1 = l1" by (intro a3) simp
    moreover from that le have "?ok l2 = l2" by (intro b3) simp
    ultimately show ?thesis by simp
  qed
  show ?thesis
    unfolding queue_ext_def using a1 b1 c d by simp
qed

lemma queue_ext_push:
  assumes i: "oq_inv rs (oqs st)"
    and o: "oqs st' = snd (oqpush rs (oqs st) v1 v2 v3 v4)"
    and l: "oqlog st' = oqlog st @ [((v1, v2, v3, v4), fst (oqpush rs (oqs st) v1 v2 v3 v4))]"
    and p: "popped st' = popped st"
  shows "queue_ext rs st st' [] [((v1, v2, v3, v4), fst (oqpush rs (oqs st) v1 v2 v3 v4))]"
proof (cases "oqnext rs (oqhead (oqs st)) = oqtail (oqs st)")
  case True
  then have f: "oqpush rs (oqs st) v1 v2 v3 v4 = (0, oqs st)" by (simp add: oqpush_def Let_def)
  have "oq_count rs (oqs st) = OQSZ rs div 4 - 1" using oq_count_full [OF i] True by simp
  then have "length (oq_contents rs (oqs st)) = OQSZ rs div OQENTRYSZ - 1"
    using oq_contents_length [OF i] by (simp add: OQENTRYSZ_def)
  then show ?thesis using i o l p by (simp add: queue_ext_def f)
next
  case False
  have r: "fst (oqpush rs (oqs st) v1 v2 v3 v4) = 1" using False by (simp add: oqpush_def Let_def)
  show ?thesis
    using o l p oq_contents_push [OF i False, of v1 v2 v3 v4] oqpush_inv [OF i, of v1 v2 v3 v4]
    by (simp add: queue_ext_def r)
qed

lemma queue_ext_dispatcher:
  assumes i: "oq_inv rs (oqs st)"
  shows "\<exists>calls. queue_ext rs st (dispatcher rs st) [] calls"
proof (cases "regs (mcu st) R26 = iqtail st")
  case True
  then have "queue_ext rs st (dispatcher rs st) [] []"
    using i by (simp add: dispatcher_def queue_ext_def)
  then show ?thesis ..
next
  case False
  obtain tlo thi pv kind where e: "iq_entry (mcu st) (iqtail st) = (tlo, thi, pv, kind)"
    by (cases "iq_entry (mcu st) (iqtail st)") auto
  define tf :: u8 where "tf = (if kind = 0 then 1 else 0)"
  show ?thesis
  proof (cases "kind = 0 \<and> allow_timer_events st = 0")
    case True
    then have "queue_ext rs st (dispatcher rs st) [] []"
      unfolding dispatcher_dequeue [OF False e] using i
      by (intro queue_ext_frame) (simp_all add: Let_def)
    then show ?thesis ..
  next
    case n: False
    have "queue_ext rs st (dispatcher rs st) []
        [((tlo, thi, pv, tf), fst (oqpush rs (oqs st) tlo thi pv tf))]"
      using i
    proof (rule queue_ext_push)
      show "oqs (dispatcher rs st) = snd (oqpush rs (oqs st) tlo thi pv tf)"
        unfolding dispatcher_dequeue [OF False e] using n by (auto simp: Let_def tf_def)
      show "oqlog (dispatcher rs st) =
          oqlog st @ [((tlo, thi, pv, tf), fst (oqpush rs (oqs st) tlo thi pv tf))]"
        unfolding dispatcher_dequeue [OF False e] using n by (auto simp: Let_def tf_def)
      show "popped (dispatcher rs st) = popped st" by (simp add: dispatcher_frame)
    qed
    then show ?thesis ..
  qed
qed

lemma queue_ext_formatter:
  assumes i: "oq_inv rs (oqs st)"
  shows "\<exists>taken. queue_ext rs st (formatter rs st) taken []"
proof (cases "obuf st ! unat (obuf_idx st) = 0 \<and> oqempty (oqs st) = 0")
  case False
  then have "queue_ext rs st (formatter rs st) [] []"
    using i by (auto simp: formatter_def queue_ext_def)
  then show ?thesis ..
next
  case True
  from True have ne: "oqhead (oqs st) \<noteq> oqtail (oqs st)" by (auto simp: oqempty_def)
  have o: "oqs (formatter rs st) = snd (snd (oqpop rs (oqs st) (0, 0, 0, 0)))"
    "popped (formatter rs st) = popped st @ [fst (snd (oqpop rs (oqs st) (0, 0, 0, 0)))]"
    using True by (simp_all add: formatter_def case_prod_beta)
  have "queue_ext rs st (formatter rs st) [fst (snd (oqpop rs (oqs st) (0, 0, 0, 0)))] []"
    using oq_contents_pop [OF i ne] oqpop_inv [OF i, of "(0, 0, 0, 0)"]
    by (simp add: queue_ext_def o formatter_frame)
  then show ?thesis ..
qed

lemma queue_ext_inv: "queue_ext rs st st' t l \<Longrightarrow> oq_inv rs (oqs st')"
  by (simp add: queue_ext_def)

lemma queue_ext_pass:
  assumes i: "oq_inv rs (oqs st)"
  shows "\<exists>taken calls. queue_ext rs st (main_pass rs env st) taken calls"
proof -
  let ?s1 = "fold interrupt (fst env) st"
  let ?s2 = "dispatcher rs ?s1"
  let ?s3 = "formatter rs ?s2"
  have a: "queue_ext rs st ?s1 [] []"
    using i by (rule queue_ext_frame) (simp_all add: fold_interrupt_frame)
  obtain l where b: "queue_ext rs ?s1 ?s2 [] l"
    using queue_ext_dispatcher [OF queue_ext_inv [OF a]] by blast
  obtain t where c: "queue_ext rs ?s2 ?s3 t []"
    using queue_ext_formatter [OF queue_ext_inv [OF b]] by blast
  have d: "queue_ext rs ?s3 (main_pass rs env st) [] []"
    unfolding main_pass_def using queue_ext_inv [OF c]
    by (rule queue_ext_frame) (simp_all add: transmitter_frame)
  have "queue_ext rs st (main_pass rs env st) ((([] @ []) @ t) @ []) ((([] @ l) @ []) @ [])"
    by (intro queue_ext_trans [OF _ d] queue_ext_trans [OF _ c] queue_ext_trans [OF a b])
  then show ?thesis by blast
qed

lemma queue_ext_loop:
  assumes "oq_inv rs (oqs st)"
  shows "\<exists>taken calls. queue_ext rs st (main_loop rs envs st) taken calls"
  using assms
proof (induction envs arbitrary: st)
  case Nil
  then have "queue_ext rs st st [] []" by (intro queue_ext_frame) simp_all
  then show ?case by auto
next
  case (Cons env envs)
  obtain t1 l1 where x: "queue_ext rs st (main_pass rs env st) t1 l1"
    using queue_ext_pass [OF Cons.prems] by blast
  obtain t2 l2 where y: "queue_ext rs (main_pass rs env st)
      (main_loop rs envs (main_pass rs env st)) t2 l2"
    using Cons.IH [OF queue_ext_inv [OF x]] by blast
  from x y have "queue_ext rs st (main_loop rs (env # envs) st) (t1 @ t2) (l1 @ l2)"
    by (simp add: queue_ext_trans)
  then show ?case by blast
qed







section \<open>Input overrun and the dispatcher's step\<close>

lemma fold_interrupt_head:
  assumes "iq_inv cp st"
  shows "iq_inv cp (fold interrupt is st) \<and>
         regs (mcu (fold interrupt is st)) R26 = regs (mcu st) R26 + 4 * of_nat (length is)"
  using assms
proof (induction "is" arbitrary: st)
  case Nil
  then show ?case by simp
next
  case (Cons vi "is")
  have i1: "iq_inv cp (interrupt vi st)" using Cons.prems by (rule interrupt_inv)
  show ?case
    using Cons.IH [OF i1] interrupt_head [OF Cons.prems, of vi] by (simp add: algebra_simps)
qed

lemma dispatcher_takes:
  assumes "iq_inv cp st" and "regs (mcu st) R26 \<noteq> iqtail st"
  shows "iq_count st = Suc (iq_count (dispatcher rs st))"
    and "dequeued (dispatcher rs st) = dequeued st @ [iq_entry (mcu st) (iqtail st)]"
proof -
  from assms have a: "unat (regs (mcu st) R26) mod 4 = 0" and b: "unat (iqtail st) mod 4 = 0"
    by (simp_all add: iq_inv_def)
  have t: "iqtail (dispatcher rs st) = iqtail st + 4"
    using assms(2) by (simp add: dispatcher_def Let_def case_prod_beta IQENTRYSZ_def)
  show "dequeued (dispatcher rs st) = dequeued st @ [iq_entry (mcu st) (iqtail st)]"
    using assms(2) by (simp add: dispatcher_def Let_def case_prod_beta iq_entry_def)
  show "iq_count st = Suc (iq_count (dispatcher rs st))"
    using u8_pop_dist [OF a b assms(2)] by (simp add: iq_count_def t dispatcher_frame)
qed

lemma dispatcher_real:
  assumes i: "oq_inv rs (oqs p)" and ne: "regs (mcu p) R26 \<noteq> iqtail p"
    and e: "iq_entry (mcu p) (iqtail p) = smp" and k: "kind_of smp \<noteq> 0"
  shows "dequeued (dispatcher rs p) = dequeued p @ [smp] \<and>
         oq_contents rs (oqs (dispatcher rs p)) =
           (if length (oq_contents rs (oqs p)) = OQSZ rs div OQENTRYSZ - 1
            then oq_contents rs (oqs p) else oq_contents rs (oqs p) @ [oq_entry_of smp])"
proof -
  obtain tlo thi pv kind where s: "smp = (tlo, thi, pv, kind)" by (cases smp) auto
  from k have k0: "kind \<noteq> 0" by (simp add: s kind_of_def)
  note d = dispatcher_dequeue [OF ne e [unfolded s], of rs]
  have o: "oqs (dispatcher rs p) = snd (oqpush rs (oqs p) tlo thi pv 0)"
    and q: "dequeued (dispatcher rs p) = dequeued p @ [smp]"
    unfolding d using k0 by (simp_all add: Let_def s)
  have l: "length (oq_contents rs (oqs p)) = oq_count rs (oqs p)"
    using i by (rule oq_contents_length)
  show ?thesis
  proof (cases "oqnext rs (oqhead (oqs p)) = oqtail (oqs p)")
    case True
    then have "oq_count rs (oqs p) = OQSZ rs div 4 - 1" using oq_count_full [OF i] by simp
    moreover from True have "oqpush rs (oqs p) tlo thi pv 0 = (0, oqs p)"
      by (simp add: oqpush_def Let_def)
    ultimately show ?thesis using q by (simp add: o l OQENTRYSZ_def)
  next
    case False
    then have "oq_count rs (oqs p) \<noteq> OQSZ rs div 4 - 1" using oq_count_full [OF i] by simp
    then show ?thesis
      using q oq_contents_push [OF i False, of tlo thi pv 0] k0
      by (simp add: o l OQENTRYSZ_def s oq_entry_of_def)
  qed
qed

lemma throttle_all_real:
  assumes "\<forall>s\<in>set xs. kind_of s \<noteq> 0"
  shows "fst (throttle a xs) = map oq_entry_of xs"
  using assms by (induction xs arbitrary: a) simp_all

lemma loop_all_stored:
  assumes z: "0 < OQSZ rs"
    and l: "length (forwarded (main_loop rs envs (main_start cp rs ram0 pin0)))
      \<le> OQSZ rs div OQENTRYSZ - 1"
  shows "popped (main_loop rs envs (main_start cp rs ram0 pin0)) @
           oq_contents rs (oqs (main_loop rs envs (main_start cp rs ram0 pin0))) =
         forwarded (main_loop rs envs (main_start cp rs ram0 pin0))"
proof -
  define st0 where "st0 = main_start cp rs ram0 pin0"
  define st where "st = main_loop rs envs st0"
  have s0: "store_inv rs st0" unfolding st0_def using z by (rule store_inv_start)
  then have i0: "oq_inv rs (oqs st0)" by (simp add: store_inv_def)
  have e0: "oqlog st0 = []" "popped st0 = []" by (simp_all add: st0_def main_start_def)
  from s0 have c0: "oq_contents rs (oqs st0) = []" by (simp add: store_inv_def stored_def e0)
  obtain taken calls where q: "queue_ext rs st0 st taken calls"
    unfolding st_def using queue_ext_loop [OF i0] by blast
  then have o: "oqlog st = calls" and p: "popped st = taken"
    and c: "taken @ oq_contents rs (oqs st) = map fst (filter (\<lambda>x. snd x \<noteq> 0) calls)"
    and d: "length calls \<le> OQSZ rs div OQENTRYSZ - 1 \<Longrightarrow> filter (\<lambda>x. snd x \<noteq> 0) calls = calls"
    by (simp_all add: queue_ext_def e0 c0)
  have "length calls \<le> OQSZ rs div OQENTRYSZ - 1"
    using l by (simp add: forwarded_def st_def [symmetric] st0_def [symmetric] o)
  then have "filter (\<lambda>x. snd x \<noteq> 0) calls = calls" by (rule d)
  then have "popped st @ oq_contents rs (oqs st) = forwarded st"
    using c by (simp add: p forwarded_def o)
  then show ?thesis by (simp add: st_def st0_def)
qed

lemma main_pass_iq:
  "mcu (main_pass rs env st) = mcu (dispatcher rs (fold interrupt (fst env) st))"
  "iqtail (main_pass rs env st) = iqtail (dispatcher rs (fold interrupt (fst env) st))"
  "dequeued (main_pass rs env st) = dequeued (dispatcher rs (fold interrupt (fst env) st))"
  "oqlog (main_pass rs env st) = oqlog (dispatcher rs (fold interrupt (fst env) st))"
  by (simp_all add: main_pass_def transmitter_frame formatter_frame)

lemma iq_count_pass:
  "iq_count (main_pass rs env st) = iq_count (dispatcher rs (fold interrupt (fst env) st))"
  "iq_pending (main_pass rs env st) = iq_pending (dispatcher rs (fold interrupt (fst env) st))"
  by (simp_all add: iq_count_def iq_pending_def main_pass_iq)

lemma pair_n:
  assumes "n \<le> 62"
  shows "iq_inv PortD (main_loop 2560 (replicate n pair_env) (main_start PortD 2560 ram_zero 0xFF)) \<and>
    iq_count (main_loop 2560 (replicate n pair_env) (main_start PortD 2560 ram_zero 0xFF)) = n \<and>
    length (dequeued (main_loop 2560 (replicate n pair_env) (main_start PortD 2560 ram_zero 0xFF))) = n \<and>
    dequeued (main_loop 2560 (replicate n pair_env) (main_start PortD 2560 ram_zero 0xFF)) @
    iq_pending (main_loop 2560 (replicate n pair_env) (main_start PortD 2560 ram_zero 0xFF)) =
      replicate (2 * n) (0x3A, 0x01, 0xF0, 0x0F)"
  using assms
proof (induction n)
  case 0
  show ?case using start_iq(1,2,3) [where cp = PortD and rs = 2560 and ?ram0.0 = ram_zero and ?pin0.0 = "0xFF"]
    by (simp add: iq_count_def main_start_def)
next
  case (Suc n)
  let ?st = "main_loop 2560 (replicate n pair_env) (main_start PortD 2560 ram_zero 0xFF)"
  let ?s1 = "fold interrupt (fst pair_env) ?st"
  from Suc have i: "iq_inv PortD ?st" and c: "iq_count ?st = n"
    and l: "length (dequeued ?st) = n"
    and f: "dequeued ?st @ iq_pending ?st = replicate (2 * n) (0x3A, 0x01, 0xF0, 0x0F)"
    by simp_all
  have cap: "iq_count ?st + length (fst pair_env) \<le> IQ_CAPACITY"
    using Suc.prems c by (simp add: pair_env_def IQ_CAPACITY_def)
  note p = pass_fifo [OF i cap, of 2560]
  note fi = fold_interrupt_pending [OF i cap]
  then have i1: "iq_inv PortD ?s1" and c1: "iq_count ?s1 = n + 2"
    using c by (simp_all add: pair_env_def)
  have ne: "regs (mcu ?s1) R26 \<noteq> iqtail ?s1"
  proof
    assume "regs (mcu ?s1) R26 = iqtail ?s1"
    then have "iq_count ?s1 = 0" by (simp add: iq_count_def)
    with c1 show False by simp
  qed
  note t = dispatcher_takes [OF i1 ne, of 2560]
  have m: "main_loop 2560 (replicate (Suc n) pair_env) (main_start PortD 2560 ram_zero 0xFF) =
      main_pass 2560 pair_env ?st"
    by (rule main_loop_replicate_Suc)
  have s: "sample_of PortD (EDGE, io_3A01F0) = (0x3A, 0x01, 0xF0, 0x0F)"
    by (simp add: sample_of_def io_3A01F0_def INTERRUPT_FLAG_CLEAR_def)
  have r: "replicate (2 * n) x @ [x, x] = replicate (2 * Suc n) x" for x :: entry
  proof -
    have "[x, x] = replicate 2 x" by (simp add: numeral_2_eq_2)
    moreover have "2 * Suc n = 2 * n + 2" by simp
    ultimately show ?thesis by (simp only: replicate_add)
  qed
  let ?st' = "main_pass 2560 pair_env ?st"
  have mp: "map (sample_of PortD) (fst pair_env) = [(0x3A, 0x01, 0xF0, 0x0F), (0x3A, 0x01, 0xF0, 0x0F)]"
    by (simp add: pair_env_def s)
  from p have A: "iq_inv PortD ?st'" by (rule conjunct1)
  from p have "dequeued ?st' @ iq_pending ?st' =
      dequeued ?st @ iq_pending ?st @ map (sample_of PortD) (fst pair_env)"
    by (rule conjunct2)
  then have B: "dequeued ?st' @ iq_pending ?st' = replicate (2 * Suc n) (0x3A, 0x01, 0xF0, 0x0F)"
    unfolding mp append_assoc [symmetric] f r .
  have "Suc (iq_count ?st') = n + 2"
    unfolding iq_count_pass(1) t(1) [symmetric] by (rule c1)
  then have C: "iq_count ?st' = Suc n" by simp
  have "dequeued ?st' = dequeued ?st @ [iq_entry (mcu ?s1) (iqtail ?s1)]"
    unfolding main_pass_iq(3) t(2) by (simp only: fold_interrupt_frame)
  then have D: "length (dequeued ?st') = Suc n" using l by simp
  show ?case
    unfolding m using A C D B by (intro conjI)
qed


lemma edge_sample: "sample_of PortD (EDGE, io_3A01F0) = (0x3A, 0x01, 0xF0, 0x0F)"
  by (simp add: sample_of_def io_3A01F0_def INTERRUPT_FLAG_CLEAR_def)

lemma burst_run_facts:
  "produced PortD [burst_env] = replicate 64 (0x3A, 0x01, 0xF0, 0x0F)"
  "dequeued burst_run = []" "iq_pending burst_run = []" "oqlog burst_run = []"
  "popped burst_run = []" "oqs burst_run = oq_init 2560"
proof -
  let ?st = "main_start PortD 2560 ram_zero 0xFF"
  let ?s1 = "fold interrupt (replicate 64 (EDGE, io_3A01F0)) ?st"
  show "produced PortD [burst_env] = replicate 64 (0x3A, 0x01, 0xF0, 0x0F)"
    by (simp add: produced_def burst_env_def edge_sample)
  have "regs (mcu ?s1) R26 = regs (mcu ?st) R26 + 4 * of_nat (length (replicate 64 (EDGE, io_3A01F0)))"
    using fold_interrupt_head [OF start_iq(1)] by blast
  then have h: "regs (mcu ?s1) R26 = 0" by (simp add: main_start_def)
  have fr: "iqtail ?s1 = iqtail ?st" "obuf ?s1 = obuf ?st" "obuf_idx ?s1 = obuf_idx ?st"
    "oqs ?s1 = oqs ?st" "dequeued ?s1 = dequeued ?st" "oqlog ?s1 = oqlog ?st"
    "popped ?s1 = popped ?st"
    by (simp_all only: fold_interrupt_frame)
  have t: "iqtail ?s1 = 0" unfolding fr by (simp add: main_start_def)
  have d: "dispatcher 2560 ?s1 = ?s1" by (simp only: dispatcher_def h t) simp
  have o: "obuf ?s1 ! unat (obuf_idx ?s1) = 0" unfolding fr by (simp add: main_start_def)
  have q: "oqempty (oqs ?s1) \<noteq> 0" unfolding fr by (simp add: main_start_def oqempty_def oq_init_def)
  have "formatter 2560 ?s1 = ?s1" using q by (simp only: formatter_def) simp
  moreover have "transmitter False ?s1 = ?s1" by (simp only: transmitter_def) simp
  ultimately have m: "burst_run = ?s1"
    by (simp only: burst_run_def burst_env_def main_loop.simps main_pass_def fst_conv snd_conv d)
  show "dequeued burst_run = []" "oqlog burst_run = []" "popped burst_run = []"
    "oqs burst_run = oq_init 2560"
    unfolding m fr by (simp_all add: main_start_def)
  show "iq_pending burst_run = []"
    unfolding m by (simp only: iq_pending_def iq_count_def h t) simp
qed

lemma replicate_63: "replicate 63 x = replicate (Suc 62) x"
proof -
  have "(63 :: nat) = Suc 62" by simp
  then show ?thesis by (simp only:)
qed

lemma pair_run_facts:
  "produced PortD (replicate 63 pair_env) = replicate 126 (0x3A, 0x01, 0xF0, 0x0F)"
  "dequeued pair_run = replicate 62 (0x3A, 0x01, 0xF0, 0x0F)" "iq_pending pair_run = []"
  "popped pair_run @ oq_contents 2560 (oqs pair_run) = replicate 62 (0x3A, 0x01, 0xF0, 0)"
proof -
  let ?e = "(0x3A, 0x01, 0xF0, 0x0F) :: entry"
  let ?st = "main_loop 2560 (replicate 62 pair_env) (main_start PortD 2560 ram_zero 0xFF)"
  let ?s1 = "fold interrupt (fst pair_env) ?st"
  have "concat (replicate n [?e, ?e]) = replicate (2 * n) ?e" for n
    by (induction n) simp_all
  then show "produced PortD (replicate 63 pair_env) = replicate 126 ?e"
    by (simp add: produced_def pair_env_def edge_sample)
  have n: "iq_inv PortD ?st \<and> iq_count ?st = 62 \<and> length (dequeued ?st) = 62 \<and>
      dequeued ?st @ iq_pending ?st = replicate (2 * 62) ?e"
    by (rule pair_n) simp
  then have i: "iq_inv PortD ?st" and c: "iq_count ?st = 62" and l: "length (dequeued ?st) = 62"
    and f: "dequeued ?st @ iq_pending ?st = replicate 124 ?e"
    by simp_all
  have "take 62 (dequeued ?st @ iq_pending ?st) = take 62 (replicate 124 ?e)" by (simp only: f)
  then have dq: "dequeued ?st = replicate 62 ?e" using l by simp
  from i have a: "unat (regs (mcu ?st) R26) mod 4 = 0" and b: "unat (iqtail ?st) mod 4 = 0"
    by (simp_all add: iq_inv_def)
  have m4: "unat (regs (mcu ?st) R26 - iqtail ?st) mod 4 = 0" using a b by (rule u8_diff_mod4)
  have d4: "unat (regs (mcu ?st) R26 - iqtail ?st) div 4 = 62"
    using c by (simp add: iq_count_def)
  have ar: "x mod 4 = 0 \<Longrightarrow> x div 4 = 62 \<Longrightarrow> x = 248" for x :: nat by presburger
  from m4 d4 have "unat (regs (mcu ?st) R26 - iqtail ?st) = 248" by (rule ar)
  then have "unat (regs (mcu ?st) R26 - iqtail ?st) = unat (248 :: u8)" by simp
  then have g: "regs (mcu ?st) R26 - iqtail ?st = 248" by (simp only: word_unat_eq_iff)
  have "regs (mcu ?s1) R26 = regs (mcu ?st) R26 + 4 * of_nat (length (fst pair_env))"
    using fold_interrupt_head [OF i] by blast
  then have "regs (mcu ?s1) R26 - iqtail ?st = (regs (mcu ?st) R26 - iqtail ?st) + 8"
    by (simp add: pair_env_def)
  then have "regs (mcu ?s1) R26 - iqtail ?st = 0" unfolding g by simp
  then have h: "regs (mcu ?s1) R26 = iqtail ?s1" by (simp add: fold_interrupt_frame)
  have d: "dispatcher 2560 ?s1 = ?s1" using h by (simp add: dispatcher_def)
  have m: "pair_run = main_pass 2560 pair_env ?st"
    unfolding pair_run_def replicate_63 by (rule main_loop_replicate_Suc)
  show r: "dequeued pair_run = replicate 62 ?e"
    unfolding m main_pass_iq d by (simp only: fold_interrupt_frame dq)
  have "iq_count pair_run = 0"
    unfolding m iq_count_pass d by (simp add: iq_count_def h)
  then show "iq_pending pair_run = []" by (simp add: iq_pending_def)
  obtain new where "log_ext (main_start PortD 2560 ram_zero 0xFF) pair_run new"
    unfolding pair_run_def using log_ext_loop by blast
  then have "forwarded pair_run = fst (throttle max_timer_events (dequeued pair_run))"
    by (simp add: log_ext_def start_iq)
  also have "\<dots> = map oq_entry_of (dequeued pair_run)"
    by (rule throttle_all_real) (simp add: r kind_of_def)
  finally have fw: "forwarded pair_run = replicate 62 (0x3A, 0x01, 0xF0, 0)"
    by (simp add: r oq_entry_of_def)
  have "popped pair_run @ oq_contents 2560 (oqs pair_run) = forwarded pair_run"
    unfolding pair_run_def
    by (rule loop_all_stored) (simp_all add: pair_run_def [symmetric] fw OQSZ_2560 OQENTRYSZ_def)
  then show "popped pair_run @ oq_contents 2560 (oqs pair_run) = replicate 62 (0x3A, 0x01, 0xF0, 0)"
    by (simp only: fw)
qed


lemma edge_arrives:
  assumes i: "iq_inv PortD st" and e: "regs (mcu st) R26 = iqtail st"
  shows "regs (mcu (interrupt (EDGE, io_3A01F0) st)) R26 \<noteq> iqtail (interrupt (EDGE, io_3A01F0) st)"
    and "iq_entry (mcu (interrupt (EDGE, io_3A01F0) st)) (iqtail (interrupt (EDGE, io_3A01F0) st)) =
      (0x3A, 0x01, 0xF0, 0x0F)"
proof -
  let ?s1 = "interrupt (EDGE, io_3A01F0) st"
  from i have b: "unat (iqtail st) mod 4 = 0" by (simp add: iq_inv_def)
  have h: "regs (mcu ?s1) R26 = iqtail st + 4" using interrupt_head [OF i] e by simp
  show "regs (mcu ?s1) R26 \<noteq> iqtail ?s1" by (simp add: h interrupt_frame)
  show "iq_entry (mcu ?s1) (iqtail ?s1) = (0x3A, 0x01, 0xF0, 0x0F)"
    using interrupt_entry [OF i b, of "(EDGE, io_3A01F0)"] e
    by (simp add: interrupt_frame edge_sample)
qed

lemma throttle_run_iq:
  "iq_inv PortD throttle_run" "regs (mcu throttle_run) R26 = iqtail throttle_run"
  by (simp_all add: throttle_run_def iq_inv_def run_defs)

text \<open>
  C3, as the code has it. Let a run of passes start at the entry to the loop and never
  find more than 63 samples waiting in the input queue. Then the samples produced by the
  capture routines are, in order, those the dispatcher has dequeued followed by those
  still waiting; the entries the dispatcher hands to \<^verbatim>\<open>oqpush\<close> are an in-order
  subsequence of the produced samples (each with the timer flag as its fourth byte) and
  contain every dequeued real capture; and the entries for which \<^verbatim>\<open>oqpush\<close> returned
  success are, in order, those the formatter has taken followed by the contents of the
  output queue. These are all the entries handed to \<^verbatim>\<open>oqpush\<close> when there were no
  more of them than the output queue holds. And whenever the dispatcher, after any
  interrupts, dequeues a real capture, the output queue then holds what it held before
  followed by the entry of that sample, unless it held \<^verbatim>\<open>OQSZ/OQENTRYSZ - 1\<close> entries:
  then it is unchanged and the sample is dropped.
\<close>

theorem dispatcher_fifo:
  assumes "0 < OQSZ rs" and "within_capacity rs envs (main_start cp rs ram0 pin0)"
  shows "produced cp envs =
           dequeued (main_loop rs envs (main_start cp rs ram0 pin0)) @
           iq_pending (main_loop rs envs (main_start cp rs ram0 pin0)) \<and>
         subseq (forwarded (main_loop rs envs (main_start cp rs ram0 pin0)))
           (map oq_entry_of (produced cp envs)) \<and>
         filter (\<lambda>e. kind_of e = 0) (forwarded (main_loop rs envs (main_start cp rs ram0 pin0))) =
           map oq_entry_of
             (filter (\<lambda>s. kind_of s \<noteq> 0) (dequeued (main_loop rs envs (main_start cp rs ram0 pin0)))) \<and>
         subseq (stored (main_loop rs envs (main_start cp rs ram0 pin0)))
           (forwarded (main_loop rs envs (main_start cp rs ram0 pin0))) \<and>
         stored (main_loop rs envs (main_start cp rs ram0 pin0)) =
           popped (main_loop rs envs (main_start cp rs ram0 pin0)) @
           oq_contents rs (oqs (main_loop rs envs (main_start cp rs ram0 pin0))) \<and>
         (length (forwarded (main_loop rs envs (main_start cp rs ram0 pin0)))
            \<le> OQSZ rs div OQENTRYSZ - 1 \<longrightarrow>
          popped (main_loop rs envs (main_start cp rs ram0 pin0)) @
            oq_contents rs (oqs (main_loop rs envs (main_start cp rs ram0 pin0))) =
          forwarded (main_loop rs envs (main_start cp rs ram0 pin0))) \<and>
         (regs (mcu (fold interrupt irqs (main_loop rs envs (main_start cp rs ram0 pin0)))) R26 \<noteq>
            iqtail (fold interrupt irqs (main_loop rs envs (main_start cp rs ram0 pin0))) \<and>
          iq_entry (mcu (fold interrupt irqs (main_loop rs envs (main_start cp rs ram0 pin0))))
            (iqtail (fold interrupt irqs (main_loop rs envs (main_start cp rs ram0 pin0)))) = smp \<and>
          kind_of smp \<noteq> 0 \<longrightarrow>
          dequeued (dispatcher rs (fold interrupt irqs (main_loop rs envs (main_start cp rs ram0 pin0)))) =
            dequeued (main_loop rs envs (main_start cp rs ram0 pin0)) @ [smp] \<and>
          oq_contents rs
            (oqs (dispatcher rs (fold interrupt irqs (main_loop rs envs (main_start cp rs ram0 pin0))))) =
            (if length (oq_contents rs (oqs (main_loop rs envs (main_start cp rs ram0 pin0)))) =
                OQSZ rs div OQENTRYSZ - 1
             then oq_contents rs (oqs (main_loop rs envs (main_start cp rs ram0 pin0)))
             else oq_contents rs (oqs (main_loop rs envs (main_start cp rs ram0 pin0))) @
                    [oq_entry_of smp]))"
proof -
  define st0 where "st0 = main_start cp rs ram0 pin0"
  define st where "st = main_loop rs envs st0"
  define p where "p = fold interrupt irqs st"
  have fifo: "produced cp envs = dequeued st @ iq_pending st"
    using loop_fifo [OF start_iq(1) assms(2)] by (simp add: st_def st0_def start_iq)
  obtain new where "log_ext st0 st new" unfolding st_def using log_ext_loop by blast
  then have f: "forwarded st = fst (throttle max_timer_events (dequeued st))"
    by (simp add: log_ext_def st0_def start_iq)
  have "subseq (forwarded st) (map oq_entry_of (dequeued st))"
    unfolding f by (rule throttle_subseq)
  moreover have "subseq (map oq_entry_of (dequeued st)) (map oq_entry_of (produced cp envs))"
    unfolding fifo by (simp add: prefix_imp_subseq)
  ultimately have s1: "subseq (forwarded st) (map oq_entry_of (produced cp envs))"
    by (rule subseq_order.trans)
  have s2: "filter (\<lambda>e. kind_of e = 0) (forwarded st) =
      map oq_entry_of (filter (\<lambda>s. kind_of s \<noteq> 0) (dequeued st))"
    unfolding f by (rule throttle_real_kept)
  have s3: "subseq (stored st) (forwarded st)"
    unfolding stored_def forwarded_def by (intro subseq_map subseq_filter_left)
  have si: "store_inv rs st"
    unfolding st_def st0_def using store_inv_start [OF assms(1)] by (rule store_inv_loop)
  then have s4: "stored st = popped st @ oq_contents rs (oqs st)" by (simp add: store_inv_def)
  have s5: "length (forwarded st) \<le> OQSZ rs div OQENTRYSZ - 1 \<longrightarrow>
      popped st @ oq_contents rs (oqs st) = forwarded st"
  proof
    assume "length (forwarded st) \<le> OQSZ rs div OQENTRYSZ - 1"
    with assms(1) show "popped st @ oq_contents rs (oqs st) = forwarded st"
      unfolding st_def st0_def by (rule loop_all_stored)
  qed
  have pf: "oqs p = oqs st" "dequeued p = dequeued st"
    by (simp_all only: p_def fold_interrupt_frame)
  from si have oi: "oq_inv rs (oqs p)" by (simp add: store_inv_def pf)
  have s6: "regs (mcu p) R26 \<noteq> iqtail p \<and> iq_entry (mcu p) (iqtail p) = smp \<and> kind_of smp \<noteq> 0 \<longrightarrow>
      dequeued (dispatcher rs p) = dequeued st @ [smp] \<and>
      oq_contents rs (oqs (dispatcher rs p)) =
        (if length (oq_contents rs (oqs st)) = OQSZ rs div OQENTRYSZ - 1
         then oq_contents rs (oqs st) else oq_contents rs (oqs st) @ [oq_entry_of smp])"
  proof
    assume h: "regs (mcu p) R26 \<noteq> iqtail p \<and> iq_entry (mcu p) (iqtail p) = smp \<and> kind_of smp \<noteq> 0"
    from h have h1: "regs (mcu p) R26 \<noteq> iqtail p" and h2: "iq_entry (mcu p) (iqtail p) = smp"
      and h3: "kind_of smp \<noteq> 0" by simp_all
    show "dequeued (dispatcher rs p) = dequeued st @ [smp] \<and>
      oq_contents rs (oqs (dispatcher rs p)) =
        (if length (oq_contents rs (oqs st)) = OQSZ rs div OQENTRYSZ - 1
         then oq_contents rs (oqs st) else oq_contents rs (oqs st) @ [oq_entry_of smp])"
      using oi h1 h2 h3 unfolding pf [symmetric] by (rule dispatcher_real)
  qed
  from fifo s1 s2 s3 s4 s5 s6 show ?thesis
    unfolding p_def st_def st0_def by (intro conjI)
qed

theorem dispatcher_fifo_witness:
  "0 < OQSZ 2560 \<and>
   within_capacity 2560 throttle_run_envs (main_start PortD 2560 ram_zero 0xFF) \<and>
   produced PortD throttle_run_envs =
     [(0x05, 0, 0xFF, 0), (0x05, 0, 0xFF, 0), (0x05, 0, 0xFF, 0), (0x3A, 0x01, 0xF0, 0x0F)] \<and>
   dequeued throttle_run @ iq_pending throttle_run =
     [(0x05, 0, 0xFF, 0), (0x05, 0, 0xFF, 0), (0x05, 0, 0xFF, 0), (0x3A, 0x01, 0xF0, 0x0F)] \<and>
   forwarded throttle_run = [(0x05, 0, 0xFF, 1), (0x05, 0, 0xFF, 1), (0x3A, 0x01, 0xF0, 0)] \<and>
   length (forwarded throttle_run) \<le> OQSZ 2560 div OQENTRYSZ - 1 \<and>
   popped throttle_run @ oq_contents 2560 (oqs throttle_run) =
     [(0x05, 0, 0xFF, 1), (0x05, 0, 0xFF, 1), (0x3A, 0x01, 0xF0, 0)] \<and>
   regs (mcu (fold interrupt [(EDGE, io_3A01F0)] throttle_run)) R26 \<noteq>
     iqtail (fold interrupt [(EDGE, io_3A01F0)] throttle_run) \<and>
   iq_entry (mcu (fold interrupt [(EDGE, io_3A01F0)] throttle_run))
     (iqtail (fold interrupt [(EDGE, io_3A01F0)] throttle_run)) = (0x3A, 0x01, 0xF0, 0x0F) \<and>
   kind_of (0x3A, 0x01, 0xF0, 0x0F) \<noteq> 0 \<and>
   length (oq_contents 2560 (oqs throttle_run)) \<noteq> OQSZ 2560 div OQENTRYSZ - 1 \<and>
   dequeued (dispatcher 2560 (fold interrupt [(EDGE, io_3A01F0)] throttle_run)) =
     dequeued throttle_run @ [(0x3A, 0x01, 0xF0, 0x0F)] \<and>
   oq_contents 2560 (oqs (dispatcher 2560 (fold interrupt [(EDGE, io_3A01F0)] throttle_run))) =
     oq_contents 2560 (oqs throttle_run) @ [(0x3A, 0x01, 0xF0, 0)]"
proof -
  let ?l = "[(0x05, 0, 0xFF, 1), (0x05, 0, 0xFF, 1), (0x3A, 0x01, 0xF0, 0)] :: entry list"
  let ?p = "fold interrupt [(EDGE, io_3A01F0)] throttle_run"
  have z: "0 < OQSZ 2560" by (simp add: OQSZ_2560)
  note w = throttle_run_within
  have p: "produced PortD throttle_run_envs =
      [(0x05, 0, 0xFF, 0), (0x05, 0, 0xFF, 0), (0x05, 0, 0xFF, 0), (0x3A, 0x01, 0xF0, 0x0F)]"
    by (simp add: produced_def throttle_run_envs_def sample_of_def io_tick_def io_3A01F0_def
        INTERRUPT_FLAG_CLEAR_def)
  have s: "stored throttle_run = ?l" "forwarded throttle_run = ?l"
    by (simp_all add: stored_def forwarded_def throttle_run_oqlog)
  have fi: "?p = interrupt (EDGE, io_3A01F0) throttle_run" by simp
  note a = edge_arrives [OF throttle_run_iq, folded fi]
  have k: "kind_of (0x3A, 0x01, 0xF0, 0x0F :: u8) \<noteq> 0" by (simp add: kind_of_def)
  note t = dispatcher_fifo [OF z w, where irqs = "[(EDGE, io_3A01F0)]"
      and smp = "(0x3A, 0x01, 0xF0, 0x0F)", unfolded throttle_run_def [symmetric]]
  note t1 = t [THEN conjunct1]
  note t5 = t [THEN conjunct2, THEN conjunct2, THEN conjunct2, THEN conjunct2, THEN conjunct1]
  note t6 = t [THEN conjunct2, THEN conjunct2, THEN conjunct2, THEN conjunct2, THEN conjunct2,
      THEN conjunct1]
  note t7 = t [THEN conjunct2, THEN conjunct2, THEN conjunct2, THEN conjunct2, THEN conjunct2,
      THEN conjunct2]
  have d: "dequeued throttle_run @ iq_pending throttle_run =
      [(0x05, 0, 0xFF, 0), (0x05, 0, 0xFF, 0), (0x05, 0, 0xFF, 0), (0x3A, 0x01, 0xF0, 0x0F)]"
    using t1 by (simp only: p)
  have fl: "length (forwarded throttle_run) \<le> OQSZ 2560 div OQENTRYSZ - 1"
    by (simp add: s OQSZ_2560 OQENTRYSZ_def)
  have c: "popped throttle_run @ oq_contents 2560 (oqs throttle_run) = ?l"
    using t6 fl by (simp only: s)
  have "length (popped throttle_run @ oq_contents 2560 (oqs throttle_run)) = 3"
    by (simp only: c) simp
  then have n: "length (oq_contents 2560 (oqs throttle_run)) \<noteq> OQSZ 2560 div OQENTRYSZ - 1"
    by (simp add: OQSZ_2560 OQENTRYSZ_def)
  have oe: "oq_entry_of (0x3A, 0x01, 0xF0, 0x0F) = (0x3A, 0x01, 0xF0, 0)"
    by (simp add: oq_entry_of_def)
  from t7 a k have r: "dequeued (dispatcher 2560 ?p) = dequeued throttle_run @ [(0x3A, 0x01, 0xF0, 0x0F)] \<and>
      oq_contents 2560 (oqs (dispatcher 2560 ?p)) =
        (if length (oq_contents 2560 (oqs throttle_run)) = OQSZ 2560 div OQENTRYSZ - 1
         then oq_contents 2560 (oqs throttle_run)
         else oq_contents 2560 (oqs throttle_run) @ [oq_entry_of (0x3A, 0x01, 0xF0, 0x0F)])"
    by blast
  from r have r1: "dequeued (dispatcher 2560 ?p) = dequeued throttle_run @ [(0x3A, 0x01, 0xF0, 0x0F)]"
    by (rule conjunct1)
  from r have r2: "oq_contents 2560 (oqs (dispatcher 2560 ?p)) =
      oq_contents 2560 (oqs throttle_run) @ [(0x3A, 0x01, 0xF0, 0)]"
    using n by (simp only: if_False oe)
  from z w p d s(2) fl c a(1) a(2) k n r1 r2 show ?thesis by (intro conjI)
qed

text \<open>
  C3 as stated fails, in three ways. With the debug channel stalled and one edge in each
  of 513 passes, the input queue never holds more than one sample and all 513 real
  captures are dequeued; the formatter takes the first entry, the output queue fills with
  the next 511, and the \<^verbatim>\<open>oqpush\<close> of the last returns 0: only 512 entries ever enter the
  output queue. With 64 edges in one pass, as many as the input queue has slots, the head
  is back at the tail, the queue looks empty and the dispatcher takes none of the 64 real
  captures. With two edges in each of 63 passes, the dispatcher drains one sample in
  every pass and no more than two are produced between two drains, yet in the last pass
  the head reaches the tail: of the 126 real captures 62 are dequeued and reach the
  output queue, which is far from full, and none is left waiting.
\<close>

theorem real_capture_dropped:
  "within_capacity 2560 (replicate 513 edge_env) (main_start PortD 2560 ram_zero 0xFF) \<and>
   produced PortD (replicate 513 edge_env) = replicate 513 (0x3A, 0x01, 0xF0, 0x0F) \<and>
   kind_of (0x3A, 0x01, 0xF0, 0x0F) \<noteq> 0 \<and>
   dequeued stalled_run = replicate 513 (0x3A, 0x01, 0xF0, 0x0F) \<and>
   oqlog stalled_run = replicate 512 ((0x3A, 0x01, 0xF0, 0), 1) @ [((0x3A, 0x01, 0xF0, 0), 0)] \<and>
   popped stalled_run @ oq_contents 2560 (oqs stalled_run) = replicate 512 (0x3A, 0x01, 0xF0, 0) \<and>
   produced PortD [burst_env] = replicate 64 (0x3A, 0x01, 0xF0, 0x0F) \<and>
   dequeued burst_run = [] \<and> iq_pending burst_run = [] \<and> oqlog burst_run = [] \<and>
   popped burst_run = [] \<and> oqs burst_run = oq_init 2560 \<and>
   produced PortD (replicate 63 pair_env) = replicate 126 (0x3A, 0x01, 0xF0, 0x0F) \<and>
   dequeued pair_run = replicate 62 (0x3A, 0x01, 0xF0, 0x0F) \<and> iq_pending pair_run = [] \<and>
   popped pair_run @ oq_contents 2560 (oqs pair_run) = replicate 62 (0x3A, 0x01, 0xF0, 0)"
proof -
  let ?st0 = "main_start PortD 2560 ram_zero 0xFF"
  let ?s = "main_loop 2560 (replicate 512 edge_env) ?st0"
  have w: "within_capacity 2560 (replicate 513 edge_env) ?st0"
    using start_facts by (rule stalled_within_capacity)
  have pr: "produced PortD (replicate 513 edge_env) = replicate 513 (0x3A, 0x01, 0xF0, 0x0F)"
    by (simp add: produced_def edge_env_def sample_of_def io_3A01F0_def INTERRUPT_FLAG_CLEAR_def
        concat_replicate_single)
  have j: "stalled_inv 512 ?s" by (rule stalled_n) simp_all
  then have i: "iq_inv PortD ?s" and e: "regs (mcu ?s) R26 = iqtail ?s"
    and q: "oq_inv 2560 (oqs ?s)" and c: "oq_count 2560 (oqs ?s) = 511"
    and b: "obuf ?s ! unat (obuf_idx ?s) \<noteq> 0"
    and d: "dequeued ?s = replicate 512 (0x3A, 0x01, 0xF0, 0x0F)"
    and l: "oqlog ?s = replicate 512 ((0x3A, 0x01, 0xF0, 0), 1)"
    by (simp_all add: stalled_inv_def)
  have full: "oqpush 2560 (oqs ?s) 0x3A 0x01 0xF0 0 = (0, oqs ?s)"
    using q by (rule oqpush_full) (simp add: c OQSZ_2560)
  have r: "stalled_run = main_pass 2560 edge_env ?s"
    unfolding stalled_run_def
    using main_loop_replicate_Suc [of 2560 512 edge_env ?st0] by simp
  have dq: "dequeued stalled_run = replicate 513 (0x3A, 0x01, 0xF0, 0x0F)"
    unfolding r stalled_pass [OF i e b] by (simp add: d replicate_513)
  have lg: "oqlog stalled_run =
      replicate 512 ((0x3A, 0x01, 0xF0, 0), 1) @ [((0x3A, 0x01, 0xF0, 0), 0)]"
    unfolding r stalled_pass [OF i e b] by (simp add: l full)
  have "store_inv 2560 stalled_run"
    unfolding stalled_run_def
    by (intro store_inv_loop store_inv_start) (simp add: OQSZ_2560)
  then have "popped stalled_run @ oq_contents 2560 (oqs stalled_run) = stored stalled_run"
    by (simp add: store_inv_def)
  also have "\<dots> = replicate 512 (0x3A, 0x01, 0xF0, 0)"
    by (simp add: stored_def lg)
  finally have st: "popped stalled_run @ oq_contents 2560 (oqs stalled_run) =
      replicate 512 (0x3A, 0x01, 0xF0, 0)" .
  have k: "kind_of (0x3A, 0x01, 0xF0, 0x0F :: u8) \<noteq> 0" by (simp add: kind_of_def)
  show ?thesis
    using w pr k dq lg st burst_run_facts pair_run_facts by (intro conjI)
qed


end
